theory Spec2Isabelle
  imports Complex_Main "HOL-Library.Word"
begin

unbundle bit_operations_syntax

section \<open>Python values, exceptions and the struct module\<close>

text \<open>
  The exceptions the modelled code can raise.  \<open>StructError\<close> is Python's
  \<^verbatim>\<open>struct.error\<close>: it is what \<^verbatim>\<open>struct.pack\<close> raises for a value that does not fit
  the format and what \<^verbatim>\<open>struct.unpack\<close> raises for a buffer that is too short.
\<close>

datatype error =
    StructError
  | NotImplementedError
  | IndexError
  | TypeError
  | AttributeError
  | KeyError
  | ValueError
  | ZeroDivisionError
  | UnicodeDecodeError
  | UnicodeEncodeError
  | OverflowError

type_synonym byte = "8 word"

text \<open>A Python \<^verbatim>\<open>str\<close> is a sequence of Unicode code points; \<^verbatim>\<open>len\<close> counts them.\<close>

type_synonym pystr = "nat list"

text \<open>
  The classes registered in the dispatch table of \<^verbatim>\<open>nbt.py\<close>, and a tag object:
  its class, its \<^verbatim>\<open>name\<close> and its \<^verbatim>\<open>payload\<close>.  Python does not type the two
  fields, so both range over the values the code stores in them: integers,
  strings and lists of tags.  Equality of \<open>tag\<close> is \<^verbatim>\<open>TAG.__eq__\<close>: equal name,
  equal payload, equal class.
\<close>

datatype kind =
    TAG_Byte | TAG_Short | TAG_Int | TAG_Long
  | TAG_String | TAG_Byte_Array | TAG_List | TAG_Compound

datatype pyval = PInt int | PStr pystr | PList "tag list"
  and tag = TAG (cls: kind) (name: pyval) (payload: pyval)

fun ID :: "kind \<Rightarrow> int" where
  "ID TAG_Byte = 1"
| "ID TAG_Short = 2"
| "ID TAG_Int = 3"
| "ID TAG_Long = 4"
| "ID TAG_Byte_Array = 7"
| "ID TAG_String = 8"
| "ID TAG_List = 9"
| "ID TAG_Compound = 10"

text \<open>\<^verbatim>\<open>tags = [None for _ in range(13)]\<close>, then \<^verbatim>\<open>tags[ID] = class\<close> for each class.\<close>

definition tags :: "kind option list" where
  "tags = [None, Some TAG_Byte, Some TAG_Short, Some TAG_Int, Some TAG_Long, None, None,
           Some TAG_Byte_Array, Some TAG_String, Some TAG_List, Some TAG_Compound, None, None]"

text \<open>Python list indexing \<^verbatim>\<open>xs[i]\<close>: a negative index counts from the end.\<close>

definition py_getitem :: "'a list \<Rightarrow> int \<Rightarrow> error + 'a" where
  "py_getitem xs i =
     (if 0 \<le> i \<and> i < int (length xs) then Inr (xs ! nat i)
      else if i < 0 \<and> - int (length xs) \<le> i then Inr (xs ! nat (int (length xs) + i))
      else Inl IndexError)"

text \<open>\<^verbatim>\<open>xs.index(x)\<close>: the first position holding a value equal to \<open>x\<close>.\<close>

fun py_index :: "'a list \<Rightarrow> 'a \<Rightarrow> error + nat" where
  "py_index [] x = Inl ValueError"
| "py_index (y # ys) x =
     (if y = x then Inr 0
      else case py_index ys x of Inl e \<Rightarrow> Inl e | Inr i \<Rightarrow> Inr (Suc i))"

subsection \<open>Little-endian integers\<close>

fun le_bytes :: "nat \<Rightarrow> int \<Rightarrow> byte list" where
  "le_bytes 0 v = []"
| "le_bytes (Suc n) v = word_of_int v # le_bytes n (v div 256)"

fun le_uint :: "byte list \<Rightarrow> int" where
  "le_uint [] = 0"
| "le_uint (b # bs) = uint b + 256 * le_uint bs"

text \<open>
  \<^verbatim>\<open>struct.pack\<close> and \<^verbatim>\<open>struct.unpack\<close> with one of the signed formats
  \<^verbatim>\<open>"<b"\<close>, \<^verbatim>\<open>"<h"\<close>, \<^verbatim>\<open>"<i"\<close>, \<^verbatim>\<open>"<q"\<close> of \<open>sz\<close> bytes.  Packing something that is
  not an integer, or an integer out of range, raises \<^verbatim>\<open>struct.error\<close>.
\<close>

definition pack_int :: "nat \<Rightarrow> pyval \<Rightarrow> error + byte list" where
  "pack_int sz v =
     (case v of
        PInt i \<Rightarrow>
          if - (2 ^ (8 * sz - 1)) \<le> i \<and> i < 2 ^ (8 * sz - 1)
          then Inr (le_bytes sz i) else Inl StructError
      | _ \<Rightarrow> Inl StructError)"

definition unpack_int :: "byte list \<Rightarrow> int" where
  "unpack_int bs =
     (let u = le_uint bs
      in if 2 ^ (8 * length bs - 1) \<le> u then u - 2 ^ (8 * length bs) else u)"

text \<open>
  The table \<^verbatim>\<open>fmt = [None, "b", "h", None, "i", None, None, None, "q"]\<close> of
  \<^verbatim>\<open>DataReader.pop\<close> and \<^verbatim>\<open>DataWriter.put\<close>: an index past the table is an
  \<^verbatim>\<open>IndexError\<close>, an entry \<^verbatim>\<open>None\<close> gives a bad format string.
\<close>

definition fmt :: "nat \<Rightarrow> error + unit" where
  "fmt sz =
     (if 9 \<le> sz then Inl IndexError
      else if sz = 1 \<or> sz = 2 \<or> sz = 4 \<or> sz = 8 then Inr ()
      else Inl StructError)"

subsection \<open>The UTF-8 codec\<close>

text \<open>\<^verbatim>\<open>str.encode("utf-8")\<close>: surrogates cannot be encoded.\<close>

definition utf8_char :: "nat \<Rightarrow> byte list option" where
  "utf8_char c =
     (if c < 0x80 then Some [of_nat c]
      else if c < 0x800 then Some [of_nat (0xC0 + c div 64), of_nat (0x80 + c mod 64)]
      else if 0xD800 \<le> c \<and> c \<le> 0xDFFF then None
      else if c < 0x10000 then
        Some [of_nat (0xE0 + c div 4096), of_nat (0x80 + c div 64 mod 64),
              of_nat (0x80 + c mod 64)]
      else if c < 0x110000 then
        Some [of_nat (0xF0 + c div 262144), of_nat (0x80 + c div 4096 mod 64),
              of_nat (0x80 + c div 64 mod 64), of_nat (0x80 + c mod 64)]
      else None)"

fun utf8_encode :: "pystr \<Rightarrow> byte list option" where
  "utf8_encode [] = Some []"
| "utf8_encode (c # cs) =
     (case utf8_char c of
        None \<Rightarrow> None
      | Some bs \<Rightarrow> (case utf8_encode cs of None \<Rightarrow> None | Some rest \<Rightarrow> Some (bs @ rest)))"

definition cont :: "byte \<Rightarrow> bool" where
  "cont b = (0x80 \<le> unat b \<and> unat b \<le> 0xBF)"

text \<open>
  \<^verbatim>\<open>bytes.decode("utf-8")\<close>, the strict decoder: no overlong forms, no
  surrogates, nothing above U+10FFFF, no truncated sequence.
\<close>

fun utf8_decode :: "byte list \<Rightarrow> pystr option" where
  "utf8_decode [] = Some []"
| "utf8_decode (b0 # bs) =
     (let c0 = unat b0 in
      if c0 < 0x80 then map_option ((#) c0) (utf8_decode bs)
      else if 0xC2 \<le> c0 \<and> c0 \<le> 0xDF then
        (case bs of
           b1 # r \<Rightarrow>
             if cont b1
             then map_option ((#) ((c0 - 0xC0) * 64 + (unat b1 - 0x80))) (utf8_decode r)
             else None
         | _ \<Rightarrow> None)
      else if 0xE0 \<le> c0 \<and> c0 \<le> 0xEF then
        (case bs of
           b1 # b2 # r \<Rightarrow>
             if cont b1 \<and> cont b2 \<and> (if c0 = 0xE0 then 0xA0 \<le> unat b1 else True)
                \<and> (if c0 = 0xED then unat b1 \<le> 0x9F else True)
             then map_option
                    ((#) ((c0 - 0xE0) * 4096 + (unat b1 - 0x80) * 64 + (unat b2 - 0x80)))
                    (utf8_decode r)
             else None
         | _ \<Rightarrow> None)
      else if 0xF0 \<le> c0 \<and> c0 \<le> 0xF4 then
        (case bs of
           b1 # b2 # b3 # r \<Rightarrow>
             if cont b1 \<and> cont b2 \<and> cont b3 \<and> (if c0 = 0xF0 then 0x90 \<le> unat b1 else True)
                \<and> (if c0 = 0xF4 then unat b1 \<le> 0x8F else True)
             then map_option
                    ((#) ((c0 - 0xF0) * 262144 + (unat b1 - 0x80) * 4096
                          + (unat b2 - 0x80) * 64 + (unat b3 - 0x80)))
                    (utf8_decode r)
             else None
         | _ \<Rightarrow> None)
      else None)"

section \<open>The binary cursor\<close>

text \<open>
  \<^verbatim>\<open>class DataReader\<close>: the buffer and the read position.  A slice
  \<^verbatim>\<open>self.data[self.idx:self.idx + size]\<close> is shorter than \<open>size\<close> when the buffer ends
  early, and \<^verbatim>\<open>struct.unpack\<close> then raises \<^verbatim>\<open>struct.error\<close>.
\<close>

record DataReader =
  data :: "byte list"
  idx :: nat

definition reader :: "byte list \<Rightarrow> DataReader" where
  "reader bs = \<lparr>data = bs, idx = 0\<rparr>"

definition pop :: "nat \<Rightarrow> DataReader \<Rightarrow> error + int \<times> DataReader" where
  "pop sz r =
     (case fmt sz of
        Inl e \<Rightarrow> Inl e
      | Inr _ \<Rightarrow>
          (let s = take sz (drop (idx r) (data r))
           in if length s = sz then Inr (unpack_int s, r\<lparr>idx := idx r + sz\<rparr>)
              else Inl StructError))"

text \<open>
  \<^verbatim>\<open>popString\<close>: the format \<^verbatim>\<open>"<{}s".format(size)\<close> with a negative \<open>size\<close> is a
  bad format string, so that is a \<^verbatim>\<open>struct.error\<close> as well.
\<close>

definition popString :: "DataReader \<Rightarrow> error + pystr \<times> DataReader" where
  "popString r =
     (case pop 2 r of
        Inl e \<Rightarrow> Inl e
      | Inr (sz, r1) \<Rightarrow>
          if sz < 0 then Inl StructError
          else
            (let s = take (nat sz) (drop (idx r1) (data r1))
             in if length s = nat sz then
                  (case utf8_decode s of
                     None \<Rightarrow> Inl UnicodeDecodeError
                   | Some str \<Rightarrow> Inr (str, r1\<lparr>idx := idx r1 + nat sz\<rparr>))
                else Inl StructError))"

definition finished :: "DataReader \<Rightarrow> bool" where
  "finished r = (length (data r) \<le> idx r)"

text \<open>
  \<^verbatim>\<open>class DataWriter\<close> has the single field \<^verbatim>\<open>data\<close>, the bytes written so far; the
  model passes that buffer along.
\<close>

type_synonym DataWriter = "byte list"

definition put :: "nat \<Rightarrow> pyval \<Rightarrow> DataWriter \<Rightarrow> error + DataWriter" where
  "put sz v w =
     (case fmt sz of
        Inl e \<Rightarrow> Inl e
      | Inr _ \<Rightarrow> (case pack_int sz v of Inl e \<Rightarrow> Inl e | Inr bs \<Rightarrow> Inr (w @ bs)))"

text \<open>\<^verbatim>\<open>len(x)\<close> of a Python value.\<close>

definition py_len :: "pyval \<Rightarrow> error + nat" where
  "py_len v =
     (case v of PInt _ \<Rightarrow> Inl TypeError | PStr s \<Rightarrow> Inr (length s) | PList xs \<Rightarrow> Inr (length xs))"

text \<open>
  \<^verbatim>\<open>struct.pack("<{}s".format(n), bs)\<close>: the bytes are cut to \<open>n\<close>, or padded with
  zero bytes up to \<open>n\<close>.
\<close>

definition pack_s :: "nat \<Rightarrow> byte list \<Rightarrow> byte list" where
  "pack_s n bs = take n bs @ replicate (n - length bs) 0"

text \<open>
  \<^verbatim>\<open>putString\<close>: the length written, and the width of the \<^verbatim>\<open>s\<close> field, is
  \<^verbatim>\<open>len(string)\<close>, the number of code points.  A list has no \<^verbatim>\<open>encode\<close> method.
\<close>

definition putString :: "pyval \<Rightarrow> DataWriter \<Rightarrow> error + DataWriter" where
  "putString string w =
     (case py_len string of
        Inl e \<Rightarrow> Inl e
      | Inr n \<Rightarrow>
          (case put 2 (PInt (int n)) w of
             Inl e \<Rightarrow> Inl e
           | Inr w1 \<Rightarrow>
               (case string of
                  PStr s \<Rightarrow>
                    (case utf8_encode s of
                       None \<Rightarrow> Inl UnicodeEncodeError
                     | Some bs \<Rightarrow> Inr (w1 @ pack_s n bs))
                | _ \<Rightarrow> Inl AttributeError)))"

section \<open>The tag codec\<close>

subsection \<open>Encoding\<close>

text \<open>
  \<open>tag_encode\<close> is the method call \<^verbatim>\<open>item.encode(data)\<close>, dispatched on the class.
  \<open>encode_items\<close> is the loop \<^verbatim>\<open>for item in self.payload: item.encode(data)\<close> of
  \<^verbatim>\<open>TAG_Byte_Array\<close> and \<^verbatim>\<open>TAG_List\<close>; \<open>encode_children\<close> is the loop of
  \<^verbatim>\<open>TAG_Compound.encode\<close>.  \<^verbatim>\<open>TAG_List.encode\<close> writes the discriminant 0 for an
  empty payload and \<^verbatim>\<open>tags.index(type(self.payload[0]))\<close> otherwise, and never
  compares the classes of the elements.  The equations for a payload that is
  a string or an integer give the exception Python raises when it iterates
  over, indexes or measures such a value.
\<close>

fun tag_encode :: "tag \<Rightarrow> DataWriter \<Rightarrow> error + DataWriter"
  and encode_items :: "tag list \<Rightarrow> DataWriter \<Rightarrow> error + DataWriter"
  and encode_children :: "tag list \<Rightarrow> DataWriter \<Rightarrow> error + DataWriter"
where
  "tag_encode (TAG TAG_Byte n p) w = put 1 p w"
| "tag_encode (TAG TAG_Short n p) w = put 2 p w"
| "tag_encode (TAG TAG_Int n p) w = put 4 p w"
| "tag_encode (TAG TAG_Long n p) w = put 8 p w"
| "tag_encode (TAG TAG_String n p) w = putString p w"
| "tag_encode (TAG TAG_Byte_Array n (PList xs)) w =
     (case put 4 (PInt (int (length xs))) w of
        Inl e \<Rightarrow> Inl e
      | Inr w1 \<Rightarrow> encode_items xs w1)"
| "tag_encode (TAG TAG_Byte_Array n (PStr s)) w =
     (case put 4 (PInt (int (length s))) w of
        Inl e \<Rightarrow> Inl e
      | Inr w1 \<Rightarrow> if s = [] then Inr w1 else Inl TypeError)"
| "tag_encode (TAG TAG_Byte_Array n (PInt i)) w = Inl TypeError"
| "tag_encode (TAG TAG_List n (PList xs)) w =
     (case (case xs of
              [] \<Rightarrow> put 1 (PInt 0) w
            | x # _ \<Rightarrow>
                (case py_index tags (Some (cls x)) of
                   Inl e \<Rightarrow> Inl e
                 | Inr i \<Rightarrow> put 1 (PInt (int i)) w)) of
        Inl e \<Rightarrow> Inl e
      | Inr w1 \<Rightarrow>
          (case put 4 (PInt (int (length xs))) w1 of
             Inl e \<Rightarrow> Inl e
           | Inr w2 \<Rightarrow> encode_items xs w2))"
| "tag_encode (TAG TAG_List n (PStr s)) w = (if s = [] then Inl IndexError else Inl ValueError)"
| "tag_encode (TAG TAG_List n (PInt i)) w = Inl TypeError"
| "tag_encode (TAG TAG_Compound n (PList xs)) w =
     (case encode_children xs w of
        Inl e \<Rightarrow> Inl e
      | Inr w1 \<Rightarrow> put 1 (PInt 0) w1)"
| "tag_encode (TAG TAG_Compound n (PStr s)) w =
     (if s = [] then put 1 (PInt 0) w else Inl AttributeError)"
| "tag_encode (TAG TAG_Compound n (PInt i)) w = Inl TypeError"
| "encode_items [] w = Inr w"
| "encode_items (x # xs) w =
     (case tag_encode x w of
        Inl e \<Rightarrow> Inl e
      | Inr w1 \<Rightarrow> encode_items xs w1)"
| "encode_children [] w = Inr w"
| "encode_children (x # xs) w =
     (case put 1 (PInt (ID (cls x))) w of
        Inl e \<Rightarrow> Inl e
      | Inr w1 \<Rightarrow>
          (case putString (name x) w1 of
             Inl e \<Rightarrow> Inl e
           | Inr w2 \<Rightarrow>
               (case tag_encode x w2 of
                  Inl e \<Rightarrow> Inl e
                | Inr w3 \<Rightarrow> encode_children xs w3)))"

text \<open>
  \<^verbatim>\<open>def encode(toEncode, data=None)\<close>: a writer that is passed in is used (an
  object is true), otherwise a fresh one; the result is the writer's buffer.
\<close>

definition encode :: "tag \<Rightarrow> DataWriter option \<Rightarrow> error + byte list" where
  "encode toEncode dw =
     (let w = (case dw of None \<Rightarrow> [] | Some w0 \<Rightarrow> w0)
      in case put 1 (PInt (ID (cls toEncode))) w of
           Inl e \<Rightarrow> Inl e
         | Inr w1 \<Rightarrow>
             (case putString (name toEncode) w1 of
                Inl e \<Rightarrow> Inl e
              | Inr w2 \<Rightarrow> tag_encode toEncode w2))"

subsection \<open>Decoding\<close>

text \<open>
  \<open>bytes_loop\<close> is the loop of \<^verbatim>\<open>TAG_Byte_Array.decode\<close>: iteration \<open>i\<close> appends
  \<^verbatim>\<open>TAG_Byte(i, data)\<close>; the last argument but one counts the iterations left.
\<close>

fun bytes_loop :: "int \<Rightarrow> nat \<Rightarrow> DataReader \<Rightarrow> tag list \<Rightarrow> error + tag list \<times> DataReader" where
  "bytes_loop i 0 r acc = Inr (acc, r)"
| "bytes_loop i (Suc m) r acc =
     (case pop 1 r of
        Inl e \<Rightarrow> Inl e
      | Inr (v, r1) \<Rightarrow> bytes_loop (i + 1) m r1 (acc @ [TAG TAG_Byte (PInt i) (PInt v)]))"

text \<open>
  \<open>tag_decode\<close> is the method \<^verbatim>\<open>self.decode(data)\<close> that \<^verbatim>\<open>TAG.__init__\<close> calls,
  dispatched on the class.  The first argument bounds the depth of the
  recursion: \<open>None\<close> means that the bound was reached, which is not an outcome
  of the program (see \<open>decode\<close> below, which supplies a bound that is never
  reached).  \<open>list_loop\<close> is the loop of \<^verbatim>\<open>TAG_List.decode\<close>, which looks up
  \<^verbatim>\<open>tags[self.itemID]\<close> in every iteration and calls the entry without testing
  it, and \<open>compound_loop\<close> is the \<^verbatim>\<open>while tagID != 0\<close> loop of
  \<^verbatim>\<open>TAG_Compound.decode\<close>.
\<close>

fun tag_decode :: "nat \<Rightarrow> kind \<Rightarrow> DataReader \<Rightarrow> (error + pyval \<times> DataReader) option"
  and list_loop ::
    "nat \<Rightarrow> int \<Rightarrow> int \<Rightarrow> nat \<Rightarrow> DataReader \<Rightarrow> tag list \<Rightarrow> (error + tag list \<times> DataReader) option"
  and compound_loop ::
    "nat \<Rightarrow> int \<Rightarrow> DataReader \<Rightarrow> tag list \<Rightarrow> (error + tag list \<times> DataReader) option"
where
  "tag_decode f TAG_Byte r =
     Some (case pop 1 r of Inl e \<Rightarrow> Inl e | Inr (v, r1) \<Rightarrow> Inr (PInt v, r1))"
| "tag_decode f TAG_Short r =
     Some (case pop 2 r of Inl e \<Rightarrow> Inl e | Inr (v, r1) \<Rightarrow> Inr (PInt v, r1))"
| "tag_decode f TAG_Int r =
     Some (case pop 4 r of Inl e \<Rightarrow> Inl e | Inr (v, r1) \<Rightarrow> Inr (PInt v, r1))"
| "tag_decode f TAG_Long r =
     Some (case pop 8 r of Inl e \<Rightarrow> Inl e | Inr (v, r1) \<Rightarrow> Inr (PInt v, r1))"
| "tag_decode f TAG_String r =
     Some (case popString r of Inl e \<Rightarrow> Inl e | Inr (s, r1) \<Rightarrow> Inr (PStr s, r1))"
| "tag_decode f TAG_Byte_Array r =
     Some (case pop 4 r of
             Inl e \<Rightarrow> Inl e
           | Inr (sz, r1) \<Rightarrow>
               (case bytes_loop 0 (nat sz) r1 [] of
                  Inl e \<Rightarrow> Inl e
                | Inr (xs, r2) \<Rightarrow> Inr (PList xs, r2)))"
| "tag_decode 0 TAG_List r = None"
| "tag_decode (Suc f) TAG_List r =
     (case pop 1 r of
        Inl e \<Rightarrow> Some (Inl e)
      | Inr (itemID, r1) \<Rightarrow>
          (case pop 4 r1 of
             Inl e \<Rightarrow> Some (Inl e)
           | Inr (sz, r2) \<Rightarrow>
               (case list_loop f itemID 0 (nat sz) r2 [] of
                  None \<Rightarrow> None
                | Some (Inl e) \<Rightarrow> Some (Inl e)
                | Some (Inr (xs, r3)) \<Rightarrow> Some (Inr (PList xs, r3)))))"
| "tag_decode 0 TAG_Compound r = None"
| "tag_decode (Suc f) TAG_Compound r =
     (case pop 1 r of
        Inl e \<Rightarrow> Some (Inl e)
      | Inr (tagID, r1) \<Rightarrow>
          (case compound_loop f tagID r1 [] of
             None \<Rightarrow> None
           | Some (Inl e) \<Rightarrow> Some (Inl e)
           | Some (Inr (xs, r2)) \<Rightarrow> Some (Inr (PList xs, r2))))"
| "list_loop f itemID i 0 r acc = Some (Inr (acc, r))"
| "list_loop f itemID i (Suc m) r acc =
     (case py_getitem tags itemID of
        Inl e \<Rightarrow> Some (Inl e)
      | Inr None \<Rightarrow> Some (Inl TypeError)
      | Inr (Some k) \<Rightarrow>
          (case tag_decode f k r of
             None \<Rightarrow> None
           | Some (Inl e) \<Rightarrow> Some (Inl e)
           | Some (Inr (p, r1)) \<Rightarrow> list_loop f itemID (i + 1) m r1 (acc @ [TAG k (PInt i) p])))"
| "compound_loop 0 tagID r acc = None"
| "compound_loop (Suc f) tagID r acc =
     (if tagID = 0 then Some (Inr (acc, r))
      else
        (case py_getitem tags tagID of
           Inl e \<Rightarrow> Some (Inl e)
         | Inr None \<Rightarrow> Some (Inl NotImplementedError)
         | Inr (Some k) \<Rightarrow>
             (case popString r of
                Inl e \<Rightarrow> Some (Inl e)
              | Inr (nm, r1) \<Rightarrow>
                  (case tag_decode f k r1 of
                     None \<Rightarrow> None
                   | Some (Inl e) \<Rightarrow> Some (Inl e)
                   | Some (Inr (p, r2)) \<Rightarrow>
                       (case pop 1 r2 of
                          Inl e \<Rightarrow> Some (Inl e)
                        | Inr (tagID', r3) \<Rightarrow>
                            compound_loop f tagID' r3 (acc @ [TAG k (PStr nm) p]))))))"

text \<open>\<^verbatim>\<open>def decode(data)\<close>, with the depth bound as a parameter.\<close>

definition decode_fuel :: "nat \<Rightarrow> DataReader \<Rightarrow> (error + tag \<times> DataReader) option" where
  "decode_fuel f r =
     (case pop 1 r of
        Inl e \<Rightarrow> Some (Inl e)
      | Inr (tagID, r1) \<Rightarrow>
          (case py_getitem tags tagID of
             Inl e \<Rightarrow> Some (Inl e)
           | Inr None \<Rightarrow> Some (Inl NotImplementedError)
           | Inr (Some k) \<Rightarrow>
               (case popString r1 of
                  Inl e \<Rightarrow> Some (Inl e)
                | Inr (nm, r2) \<Rightarrow>
                    (case tag_decode f k r2 of
                       None \<Rightarrow> None
                     | Some (Inl e) \<Rightarrow> Some (Inl e)
                     | Some (Inr (p, r3)) \<Rightarrow> Some (Inr (TAG k (PStr nm) p, r3))))))"

text \<open>
  Every level of nesting and every child of a compound costs at least one
  byte of the buffer, so one more than the length of the buffer bounds the
  depth (lemma \<open>decode_total\<close>).
\<close>

definition decode :: "DataReader \<Rightarrow> (error + tag \<times> DataReader) option" where
  "decode r = decode_fuel (Suc (length (data r))) r"

subsection \<open>Structural edits\<close>

text \<open>\<^verbatim>\<open>TAG.__getitem__\<close>: the first item of the payload with the given name.\<close>

fun getitem_loop :: "tag list \<Rightarrow> pyval \<Rightarrow> error + tag" where
  "getitem_loop [] n = Inl KeyError"
| "getitem_loop (item # items) n = (if name item = n then Inr item else getitem_loop items n)"

definition TAG_getitem :: "tag \<Rightarrow> pyval \<Rightarrow> error + tag" where
  "TAG_getitem t n =
     (case payload t of
        PList xs \<Rightarrow> getitem_loop xs n
      | PStr s \<Rightarrow> if s = [] then Inl KeyError else Inl AttributeError
      | PInt _ \<Rightarrow> Inl TypeError)"

text \<open>
  \<^verbatim>\<open>TAG_Compound.pop\<close>: the loop over \<^verbatim>\<open>range(len(self.payload))\<close>, at index \<open>i\<close>
  with the given number of iterations left; \<^verbatim>\<open>self.payload.pop(i)\<close> removes and
  returns the item at \<open>i\<close>.  The result is the returned value (\<open>None\<close> for
  Python's \<^verbatim>\<open>None\<close>) and the tag afterwards.
\<close>

fun pop_loop :: "tag list \<Rightarrow> pyval \<Rightarrow> nat \<Rightarrow> nat \<Rightarrow> tag option \<times> tag list" where
  "pop_loop xs n i 0 = (None, xs)"
| "pop_loop xs n i (Suc m) =
     (if name (xs ! i) = n then (Some (xs ! i), take i xs @ drop (Suc i) xs)
      else pop_loop xs n (Suc i) m)"

definition TAG_Compound_pop :: "tag \<Rightarrow> pyval \<Rightarrow> error + tag option \<times> tag" where
  "TAG_Compound_pop t n =
     (case payload t of
        PList xs \<Rightarrow>
          (case pop_loop xs n 0 (length xs) of
             (res, ys) \<Rightarrow> Inr (res, TAG (cls t) (name t) (PList ys)))
      | PStr s \<Rightarrow> if s = [] then Inr (None, t) else Inl AttributeError
      | PInt _ \<Rightarrow> Inl TypeError)"

text \<open>\<^verbatim>\<open>TAG_Compound.add\<close> and \<^verbatim>\<open>TAG_List.add\<close>: \<^verbatim>\<open>self.payload.append(tag)\<close>.\<close>

definition TAG_add :: "tag \<Rightarrow> tag \<Rightarrow> error + tag" where
  "TAG_add t x =
     (case payload t of
        PList xs \<Rightarrow> Inr (TAG (cls t) (name t) (PList (xs @ [x])))
      | _ \<Rightarrow> Inl AttributeError)"

section \<open>The block palette codec\<close>

subsection \<open>Blocks, subchunks and the array operations\<close>

text \<open>A Python string literal of ASCII characters.\<close>

definition py_str :: "string \<Rightarrow> pyval" where
  "py_str s = PStr (map of_char s)"

text \<open>
  \<^verbatim>\<open>class Block\<close>: the fields \<^verbatim>\<open>name\<close>, \<^verbatim>\<open>dv\<close> and \<^verbatim>\<open>nbt\<close> (\<open>None\<close> for Python's
  \<^verbatim>\<open>None\<close>).  The decoder stores the payloads of two tags in the first two.
\<close>

record Block =
  block_name :: pyval
  dv :: pyval
  nbt :: "tag option"

text \<open>
  \<^verbatim>\<open>class SubChunk\<close>: the fields \<^verbatim>\<open>x\<close>, \<^verbatim>\<open>z\<close>, \<^verbatim>\<open>y\<close>, \<^verbatim>\<open>version\<close> and \<^verbatim>\<open>blocks\<close>.  The
  last is a numpy array of shape (16, 16, 16): here a list of 16 lists of 16
  lists of 16 blocks, and \<^verbatim>\<open>self.blocks[x,y,z]\<close> is \<open>blocks ! x ! y ! z\<close>.
\<close>

record SubChunk =
  sub_x :: int
  sub_z :: int
  sub_y :: int
  version :: int
  blocks :: "Block list list list"

text \<open>
  The numpy calls of \<^verbatim>\<open>SubChunk.__init__\<close>: \<^verbatim>\<open>a.reshape(16, 16, 16)\<close> of the flat
  array of 4096 entries (row-major), and \<^verbatim>\<open>a.swapaxes(1, 2)\<close> of the result, an
  array of shape (16, 16, 16).  \<open>flatten3\<close> lists the entries of an array row by
  row.
\<close>

definition reshape3 :: "'a list \<Rightarrow> 'a list list list" where
  "reshape3 xs =
     map (\<lambda>a. map (\<lambda>b. map (\<lambda>c. xs ! (a * 256 + b * 16 + c)) [0..<16]) [0..<16]) [0..<16]"

definition swapaxes12 :: "'a list list list \<Rightarrow> 'a list list list" where
  "swapaxes12 arr =
     map (\<lambda>a. map (\<lambda>b. map (\<lambda>c. arr ! a ! c ! b) [0..<16]) [0..<16]) [0..<16]"

definition flatten3 :: "'a list list list \<Rightarrow> 'a list" where
  "flatten3 arr = concat (map concat arr)"

text \<open>
  \<^verbatim>\<open>SubChunk.__init__\<close> and \<^verbatim>\<open>SubChunk.empty\<close> give \<^verbatim>\<open>self.blocks\<close> the shape (16, 16, 16),
  but the field can be assigned.  A nesting of lists stands for an array of
  three axes when all its planes have one length and all its rows have one
  length (\<open>is_array\<close>).  For such an array of any shape \<open>(a, b, c)\<close>,
  \<^verbatim>\<open>a.swapaxes(1, 2)\<close> has the shape \<open>(a, c, b)\<close> and holds the transposed planes, and
  \<^verbatim>\<open>.reshape(4096)\<close> raises a \<^verbatim>\<open>ValueError\<close> unless there are 4096 entries, which it
  lists row by row.  A nesting that is no array is answered in the same way.
\<close>

definition is_array :: "'a list list list \<Rightarrow> bool" where
  "is_array arr =
     (case arr of
        [] \<Rightarrow> True
      | p # _ \<Rightarrow>
          list_all (\<lambda>q. length q = length p \<and>
             (case p of [] \<Rightarrow> True | r # _ \<Rightarrow> list_all (\<lambda>s. length s = length r) q)) arr)"

definition swapaxes12_reshape4096 :: "'a list list list \<Rightarrow> error + 'a list" where
  "swapaxes12_reshape4096 arr =
     (if is_array arr \<and> length (flatten3 arr) = 4096
      then Inr (flatten3 (map transpose arr)) else Inl ValueError)"

text \<open>\<^verbatim>\<open>SubChunk.getBlock\<close> and \<^verbatim>\<open>SubChunk.setBlock\<close>, with numpy's index check.\<close>

definition getBlock :: "SubChunk \<Rightarrow> int \<Rightarrow> int \<Rightarrow> int \<Rightarrow> error + Block" where
  "getBlock sc x y z =
     (case py_getitem (blocks sc) x of
        Inl e \<Rightarrow> Inl e
      | Inr plane \<Rightarrow>
          (case py_getitem plane y of
             Inl e \<Rightarrow> Inl e
           | Inr row \<Rightarrow> py_getitem row z))"

definition py_position :: "'a list \<Rightarrow> int \<Rightarrow> error + nat" where
  "py_position xs i =
     (if 0 \<le> i \<and> i < int (length xs) then Inr (nat i)
      else if i < 0 \<and> - int (length xs) \<le> i then Inr (nat (int (length xs) + i))
      else Inl IndexError)"

definition setBlock :: "SubChunk \<Rightarrow> int \<Rightarrow> int \<Rightarrow> int \<Rightarrow> Block \<Rightarrow> error + SubChunk" where
  "setBlock sc x y z block =
     (case py_position (blocks sc) x of
        Inl e \<Rightarrow> Inl e
      | Inr i \<Rightarrow>
          (case py_position (blocks sc ! i) y of
             Inl e \<Rightarrow> Inl e
           | Inr j \<Rightarrow>
               (case py_position (blocks sc ! i ! j) z of
                  Inl e \<Rightarrow> Inl e
                | Inr k \<Rightarrow>
                    Inr (sc\<lparr>blocks :=
                      (blocks sc)[i := (blocks sc ! i)[j := (blocks sc ! i ! j)[k := block]]]\<rparr>))))"

text \<open>\<^verbatim>\<open>SubChunk.empty\<close>: version 8, every block \<^verbatim>\<open>Block("minecraft:air")\<close>.\<close>

definition SubChunk_empty :: "int \<Rightarrow> int \<Rightarrow> int \<Rightarrow> SubChunk" where
  "SubChunk_empty x z y =
     \<lparr>sub_x = x, sub_z = z, sub_y = y, version = 8,
      blocks = replicate 16 (replicate 16 (replicate 16
        \<lparr>block_name = py_str ''minecraft:air'', dv = PInt 0, nbt = None\<rparr>))\<rparr>"

subsection \<open>Unsigned formats of the struct module\<close>

text \<open>
  \<^verbatim>\<open>struct.pack\<close> with \<^verbatim>\<open>"<B"\<close> (one byte) or \<^verbatim>\<open>"<I"\<close> (four bytes), and
  \<^verbatim>\<open>struct.unpack\<close> with \<^verbatim>\<open>"<I"\<close> and with \<open>n\<close> times \<^verbatim>\<open>"I"\<close>, which wants a
  buffer of exactly that size.
\<close>

definition pack_uint :: "nat \<Rightarrow> int \<Rightarrow> error + byte list" where
  "pack_uint n v = (if 0 \<le> v \<and> v < 2 ^ (8 * n) then Inr (le_bytes n v) else Inl StructError)"

definition unpack_I1 :: "byte list \<Rightarrow> error + int" where
  "unpack_I1 bs = (if length bs = 4 then Inr (le_uint bs) else Inl StructError)"

fun words_le :: "nat \<Rightarrow> byte list \<Rightarrow> int list" where
  "words_le 0 bs = []"
| "words_le (Suc n) bs = le_uint (take 4 bs) # words_le n (drop 4 bs)"

definition unpack_I :: "nat \<Rightarrow> byte list \<Rightarrow> error + int list" where
  "unpack_I n bs = (if length bs = 4 * n then Inr (words_le n bs) else Inl StructError)"

subsection \<open>Decoding a subchunk\<close>

text \<open>
  The two loops of \<^verbatim>\<open>_loadBlocks\<close>.  \<open>unpack_word\<close> is the loop over
  \<^verbatim>\<open>range(blocksPerWord)\<close> for the word at index \<open>i\<close>: it masks one index out of
  the word, shifts the word, and stores the index unless its position is
  past the 4096th.  \<open>unpack_words\<close> is the loop over \<^verbatim>\<open>enumerate(blockWords)\<close>.
  The words are Python integers; \<^verbatim>\<open>blocks\<close> is an array of \<^verbatim>\<open>uint32\<close>.
\<close>

fun unpack_word :: "nat \<Rightarrow> nat \<Rightarrow> nat \<Rightarrow> nat list \<Rightarrow> int \<Rightarrow> 32 word list \<Rightarrow> 32 word list" where
  "unpack_word bitsPerBlock blocksPerWord i [] word bl = bl"
| "unpack_word bitsPerBlock blocksPerWord i (j # js) word bl =
     (let block = word AND (push_bit bitsPerBlock 1 - 1);
          word' = drop_bit bitsPerBlock word
      in unpack_word bitsPerBlock blocksPerWord i js word'
           (if i * blocksPerWord + j < 4096
            then bl[i * blocksPerWord + j := word_of_int block] else bl))"

fun unpack_words :: "nat \<Rightarrow> nat \<Rightarrow> nat \<Rightarrow> int list \<Rightarrow> 32 word list \<Rightarrow> 32 word list" where
  "unpack_words bitsPerBlock blocksPerWord i [] bl = bl"
| "unpack_words bitsPerBlock blocksPerWord i (word # ws) bl =
     unpack_words bitsPerBlock blocksPerWord (Suc i) ws
       (unpack_word bitsPerBlock blocksPerWord i [0..<blocksPerWord] word bl)"

text \<open>
  \<^verbatim>\<open>_loadBlocks\<close>.  \<^verbatim>\<open>data[0]\<close> of an empty buffer is an \<^verbatim>\<open>IndexError\<close>; a width of
  0 bits, or of more than 32 (which makes \<^verbatim>\<open>blocksPerWord\<close> zero), is a
  division by zero; too few bytes for the words are a \<^verbatim>\<open>struct.error\<close>.
  \<^verbatim>\<open>np.empty\<close> leaves the array uninitialised; every entry is written by the
  loops, and the model starts from zeros.
\<close>

definition loadBlocks :: "byte list \<Rightarrow> error + 32 word list \<times> byte list" where
  "loadBlocks data0 =
     (case data0 of
        [] \<Rightarrow> Inl IndexError
      | b # data1 \<Rightarrow>
          (let bitsPerBlock = drop_bit 1 (unat b) in
           if bitsPerBlock = 0 then Inl ZeroDivisionError
           else
             (let blocksPerWord = 32 div bitsPerBlock in
              if blocksPerWord = 0 then Inl ZeroDivisionError
              else
                (let numWords = nat (- ((- 4096) div int blocksPerWord)) in
                 case unpack_I numWords (take (4 * numWords) data1) of
                   Inl e \<Rightarrow> Inl e
                 | Inr blockWords \<Rightarrow>
                     Inr (unpack_words bitsPerBlock blocksPerWord 0 blockWords
                            (replicate 4096 0),
                          drop (4 * numWords) data1)))))"

text \<open>
  \<^verbatim>\<open>_loadPalette\<close>: the count, then that many calls of \<^verbatim>\<open>nbt.decode\<close> on one reader.
  \<open>palette_loop\<close> is the loop, with its two variables \<^verbatim>\<open>dr\<close> and \<^verbatim>\<open>palette\<close>; the
  method returns the second.
\<close>

fun palette_loop ::
  "nat \<Rightarrow> DataReader \<Rightarrow> tag list \<Rightarrow> (error + tag list \<times> DataReader) option" where
  "palette_loop 0 dr palette = Some (Inr (palette, dr))"
| "palette_loop (Suc n) dr palette =
     (case decode dr of
        None \<Rightarrow> None
      | Some (Inl e) \<Rightarrow> Some (Inl e)
      | Some (Inr (t, dr')) \<Rightarrow> palette_loop n dr' (palette @ [t]))"

definition loadPalette :: "byte list \<Rightarrow> (error + tag list) option" where
  "loadPalette data0 =
     (case unpack_I1 (take 4 data0) of
        Inl e \<Rightarrow> Some (Inl e)
      | Inr palletLen \<Rightarrow>
          (case palette_loop (nat palletLen) (reader (drop 4 data0)) [] of
             None \<Rightarrow> None
           | Some (Inl e) \<Rightarrow> Some (Inl e)
           | Some (Inr (palette, dr)) \<Rightarrow> Some (Inr palette)))"

text \<open>
  The loop of \<^verbatim>\<open>SubChunk.__init__\<close> over \<^verbatim>\<open>enumerate(blocks)\<close>: entry \<open>i\<close> of the
  new array is \<^verbatim>\<open>Block(block["name"].payload, block["val"].payload)\<close> for
  \<^verbatim>\<open>block = palette[blocks[i]]\<close>.
\<close>

definition make_block :: "tag list \<Rightarrow> 32 word \<Rightarrow> error + Block" where
  "make_block palette block =
     (case py_getitem palette (uint block) of
        Inl e \<Rightarrow> Inl e
      | Inr entry \<Rightarrow>
          (case TAG_getitem entry (py_str ''name'') of
             Inl e \<Rightarrow> Inl e
           | Inr n \<Rightarrow>
               (case TAG_getitem entry (py_str ''val'') of
                  Inl e \<Rightarrow> Inl e
                | Inr v \<Rightarrow> Inr \<lparr>block_name = payload n, dv = payload v, nbt = None\<rparr>)))"

fun blocks_loop :: "tag list \<Rightarrow> 32 word list \<Rightarrow> error + Block list" where
  "blocks_loop palette [] = Inr []"
| "blocks_loop palette (block # bs) =
     (case make_block palette block of
        Inl e \<Rightarrow> Inl e
      | Inr b \<Rightarrow>
          (case blocks_loop palette bs of
             Inl e \<Rightarrow> Inl e
           | Inr rest \<Rightarrow> Inr (b # rest)))"

text \<open>
  \<^verbatim>\<open>SubChunk.__init__\<close> from the buffer that \<^verbatim>\<open>ldb.get\<close> returned: version, number
  of storages, packed indices, palette, the blocks, and the exchange of the
  last two axes.
\<close>

definition SubChunk_decode :: "int \<Rightarrow> int \<Rightarrow> int \<Rightarrow> byte list \<Rightarrow> (error + SubChunk) option" where
  "SubChunk_decode x z y data0 =
     (case data0 of
        [] \<Rightarrow> Some (Inl IndexError)
      | v # data1 \<Rightarrow>
          if unat v = 8 then
            (case data1 of
               [] \<Rightarrow> Some (Inl IndexError)
             | numStorages # data2 \<Rightarrow>
                 if unat numStorages = 1 then
                   (case loadBlocks data2 of
                      Inl e \<Rightarrow> Some (Inl e)
                    | Inr (bl, data3) \<Rightarrow>
                        (case loadPalette data3 of
                           None \<Rightarrow> None
                         | Some (Inl e) \<Rightarrow> Some (Inl e)
                         | Some (Inr palette) \<Rightarrow>
                             (case blocks_loop palette bl of
                                Inl e \<Rightarrow> Some (Inl e)
                              | Inr bs \<Rightarrow>
                                  Some (Inr \<lparr>sub_x = x, sub_z = z, sub_y = y, version = 8,
                                             blocks = swapaxes12 (reshape3 bs)\<rparr>))))
                 else Some (Inl NotImplementedError))
          else Some (Inl NotImplementedError))"

text \<open>
  The key \<^verbatim>\<open>struct.pack("<iicB", x, z, b'/', y)\<close>, and \<^verbatim>\<open>SubChunk.__init__\<close> with a
  database: the first argument stands for \<^verbatim>\<open>ldb.get(db, key)\<close>, whose module
  is not part of the sources.
\<close>

definition subchunk_key :: "int \<Rightarrow> int \<Rightarrow> int \<Rightarrow> error + byte list" where
  "subchunk_key x z y =
     (case pack_int 4 (PInt x) of
        Inl e \<Rightarrow> Inl e
      | Inr bx \<Rightarrow>
          (case pack_int 4 (PInt z) of
             Inl e \<Rightarrow> Inl e
           | Inr bz \<Rightarrow>
               (case pack_uint 1 y of
                  Inl e \<Rightarrow> Inl e
                | Inr byy \<Rightarrow> Inr (bx @ bz @ [0x2F] @ byy))))"

definition SubChunk_init ::
  "(byte list \<Rightarrow> error + byte list) \<Rightarrow> int \<Rightarrow> int \<Rightarrow> int \<Rightarrow> (error + SubChunk) option" where
  "SubChunk_init ldb_get x z y =
     (case subchunk_key x z y of
        Inl e \<Rightarrow> Some (Inl e)
      | Inr key \<Rightarrow>
          (case ldb_get key of
             Inl e \<Rightarrow> Some (Inl e)
           | Inr data0 \<Rightarrow> SubChunk_decode x z y data0))"

subsection \<open>Encoding a subchunk\<close>

text \<open>
  \<^verbatim>\<open>_savePalette\<close>.  \<open>palette_entry\<close> is the compound built for a block, and the
  loop over \<^verbatim>\<open>enumerate(blocks)\<close> appends it to the palette unless an equal
  entry is there, and stores its position at index \<open>i\<close> of \<^verbatim>\<open>blockIDs\<close>.
\<close>

definition palette_entry :: "Block \<Rightarrow> tag" where
  "palette_entry block =
     TAG TAG_Compound (py_str [])
       (PList [TAG TAG_String (py_str ''name'') (block_name block),
               TAG TAG_Short (py_str ''val'') (dv block)])"

fun savePalette_loop ::
  "nat \<Rightarrow> Block list \<Rightarrow> tag list \<Rightarrow> 32 word list \<Rightarrow> error + tag list \<times> 32 word list" where
  "savePalette_loop i [] palette blockIDs = Inr (palette, blockIDs)"
| "savePalette_loop i (b # bs) palette blockIDs =
     (let block = palette_entry b;
          palette' = (if block \<in> set palette then palette else palette @ [block])
      in case py_index palette' block of
           Inl e \<Rightarrow> Inl e
         | Inr k \<Rightarrow> savePalette_loop (Suc i) bs palette' (blockIDs[i := of_nat k]))"

definition savePalette :: "SubChunk \<Rightarrow> error + tag list \<times> 32 word list" where
  "savePalette sc =
     (case swapaxes12_reshape4096 (blocks sc) of
        Inl e \<Rightarrow> Inl e
      | Inr blocks1 \<Rightarrow> savePalette_loop 0 blocks1 [] (replicate 4096 0))"

text \<open>
  \<^verbatim>\<open>int(np.ceil(np.log2(paletteSize)))\<close>: the least \<open>k\<close> with
  \<open>paletteSize \<le> 2 ^ k\<close>.  The floating-point logarithm is exact at the powers
  of two and lies strictly between two integers elsewhere, for every size up
  to \<open>2 ^ 32\<close> (a palette has at most 4096 entries).  For the size 0 the
  logarithm is minus infinity, which \<^verbatim>\<open>int\<close> refuses with an \<^verbatim>\<open>OverflowError\<close>.
\<close>

function ceil_log2 :: "nat \<Rightarrow> nat" where
  "ceil_log2 p = (if p \<le> 1 then 0 else Suc (ceil_log2 ((p + 1) div 2)))"
  by pat_completeness auto
termination
  by (relation "measure id") auto

text \<open>
  The loops of \<^verbatim>\<open>_saveBlocks\<close>.  \<open>pack_word\<close> is the loop over
  \<^verbatim>\<open>range(blocksPerWord - 1, -1, -1)\<close> for the word at index \<open>i\<close>.  The word
  starts as the Python integer 0 and is combined with \<^verbatim>\<open>uint32\<close> entries of
  \<^verbatim>\<open>blockIDs\<close>: with the NumPy 1 promotion rules the result is a 64-bit integer,
  which these shifts cannot overflow, so the model computes in \<open>int\<close>, and
  \<^verbatim>\<open>struct.pack("<I", word)\<close> refuses a word that does not fit 32 bits.
\<close>

fun pack_word :: "nat \<Rightarrow> nat \<Rightarrow> 32 word list \<Rightarrow> nat \<Rightarrow> nat list \<Rightarrow> int \<Rightarrow> error + int" where
  "pack_word bitsPerBlock blocksPerWord blockIDs i [] word = Inr word"
| "pack_word bitsPerBlock blocksPerWord blockIDs i (j # js) word =
     (if i * blocksPerWord + j < 4096 then
        (if i * blocksPerWord + j < length blockIDs then
           pack_word bitsPerBlock blocksPerWord blockIDs i js
             (push_bit bitsPerBlock word OR uint (blockIDs ! (i * blocksPerWord + j)))
         else Inl IndexError)
      else pack_word bitsPerBlock blocksPerWord blockIDs i js word)"

fun saveBlocks_loop ::
  "nat \<Rightarrow> nat \<Rightarrow> 32 word list \<Rightarrow> nat list \<Rightarrow> byte list \<Rightarrow> error + byte list" where
  "saveBlocks_loop bitsPerBlock blocksPerWord blockIDs [] data0 = Inr data0"
| "saveBlocks_loop bitsPerBlock blocksPerWord blockIDs (i # is) data0 =
     (case pack_word bitsPerBlock blocksPerWord blockIDs i (rev [0..<blocksPerWord]) 0 of
        Inl e \<Rightarrow> Inl e
      | Inr word \<Rightarrow>
          (case pack_uint 4 word of
             Inl e \<Rightarrow> Inl e
           | Inr bs \<Rightarrow> saveBlocks_loop bitsPerBlock blocksPerWord blockIDs is (data0 @ bs)))"

definition bitsPerBlock_of :: "nat \<Rightarrow> nat" where
  "bitsPerBlock_of paletteSize = max (ceil_log2 paletteSize) 1"

definition saveBlocks :: "nat \<Rightarrow> 32 word list \<Rightarrow> error + byte list" where
  "saveBlocks paletteSize blockIDs =
     (if paletteSize = 0 then Inl OverflowError
      else
        (let bitsPerBlock = bitsPerBlock_of paletteSize;
             blocksPerWord = 32 div bitsPerBlock in
         if blocksPerWord = 0 then Inl ZeroDivisionError
         else
           (let numWords = nat (- ((- 4096) div int blocksPerWord)) in
            case pack_uint 1 (int (push_bit 1 bitsPerBlock)) of
              Inl e \<Rightarrow> Inl e
            | Inr data0 \<Rightarrow>
                saveBlocks_loop bitsPerBlock blocksPerWord blockIDs [0..<numWords] data0)))"

text \<open>
  \<^verbatim>\<open>SubChunk.save\<close>: \<open>save_data\<close> is the buffer it builds (version and storage
  count, packed indices, palette length, palette entries), and \<open>save\<close> gives
  the key and the buffer that it passes to \<^verbatim>\<open>ldb.put\<close>.
\<close>

fun encode_palette :: "tag list \<Rightarrow> byte list \<Rightarrow> error + byte list" where
  "encode_palette [] data0 = Inr data0"
| "encode_palette (block # bs) data0 =
     (case encode block None of
        Inl e \<Rightarrow> Inl e
      | Inr bytes \<Rightarrow> encode_palette bs (data0 @ bytes))"

definition save_data :: "SubChunk \<Rightarrow> error + byte list" where
  "save_data sc =
     (case pack_uint 1 (version sc) of
        Inl e \<Rightarrow> Inl e
      | Inr v \<Rightarrow>
          (case savePalette sc of
             Inl e \<Rightarrow> Inl e
           | Inr (palette, blockIDs) \<Rightarrow>
               (case saveBlocks (length palette) blockIDs of
                  Inl e \<Rightarrow> Inl e
                | Inr bs \<Rightarrow>
                    (case pack_uint 4 (int (length palette)) of
                       Inl e \<Rightarrow> Inl e
                     | Inr pl \<Rightarrow> encode_palette palette (v @ [1] @ bs @ pl)))))"

definition save :: "SubChunk \<Rightarrow> error + byte list \<times> byte list" where
  "save sc =
     (case save_data sc of
        Inl e \<Rightarrow> Inl e
      | Inr data0 \<Rightarrow>
          (case subchunk_key (sub_x sc) (sub_z sc) (sub_y sc) of
             Inl e \<Rightarrow> Inl e
           | Inr key \<Rightarrow> Inr (key, data0)))"

section \<open>Vocabulary of the proofs\<close>

text \<open>
  What is left of the buffer at the read position, and the reader after \<open>n\<close>
  more bytes have been consumed.
\<close>

definition remaining :: "DataReader \<Rightarrow> byte list" where
  "remaining r = drop (idx r) (data r)"

definition advance :: "nat \<Rightarrow> DataReader \<Rightarrow> DataReader" where
  "advance n r = r\<lparr>idx := idx r + n\<rparr>"

text \<open>The values that fit a signed integer of \<open>sz\<close> bytes.\<close>

definition in_range :: "nat \<Rightarrow> int \<Rightarrow> bool" where
  "in_range sz i = (- (2 ^ (8 * sz - 1)) \<le> i \<and> i < 2 ^ (8 * sz - 1))"

text \<open>A result of the writer, seen from a writer that already holds \<open>w\<close>.\<close>

definition frame :: "byte list \<Rightarrow> error + byte list \<Rightarrow> error + byte list" where
  "frame w res = (case res of Inl e \<Rightarrow> Inl e | Inr bs \<Rightarrow> Inr (w @ bs))"

text \<open>
  The bytes that \<^verbatim>\<open>item.encode\<close> appends for a tag, and the buffer that
  \<^verbatim>\<open>encode\<close> returns for it (both empty when the encoder raises).
\<close>

definition tag_bytes :: "tag \<Rightarrow> byte list" where
  "tag_bytes t = (case tag_encode t [] of Inl e \<Rightarrow> [] | Inr bs \<Rightarrow> bs)"

definition encode_bytes :: "tag \<Rightarrow> byte list" where
  "encode_bytes t = (case encode t None of Inl e \<Rightarrow> [] | Inr bs \<Rightarrow> bs)"

text \<open>The discriminant \<^verbatim>\<open>TAG_List.encode\<close> writes for a payload.\<close>

definition item_kind :: "tag list \<Rightarrow> int" where
  "item_kind xs = (case xs of [] \<Rightarrow> 0 | x # _ \<Rightarrow> ID (cls x))"

text \<open>
  The tag trees for which encoding followed by decoding is the identity.
  A string (a payload or a name) is ASCII and has at most 32767 characters:
  \<^verbatim>\<open>putString\<close> writes \<^verbatim>\<open>len(string)\<close> in the signed 16-bit format \<^verbatim>\<open>"h"\<close> and cuts
  the UTF-8 bytes to that many.  An integer fits the width of its class.  The
  items of a byte array are \<^verbatim>\<open>TAG_Byte\<close> objects and the items of a list have the
  class of the first one; an item is named by its position, as
  \<^verbatim>\<open>TAG_Byte(i, data)\<close> and \<^verbatim>\<open>tags[self.itemID](i, data)\<close> name it when decoding, and
  there are fewer than \<open>2 ^ 31\<close> of them (the count is written in the format
  \<^verbatim>\<open>"i"\<close>).  The children of a compound are named by strings.
\<close>

definition ascii :: "pystr \<Rightarrow> bool" where
  "ascii s = list_all (\<lambda>c. c < 128) s"

definition wf_string :: "pyval \<Rightarrow> bool" where
  "wf_string v = (case v of PStr s \<Rightarrow> ascii s \<and> length s \<le> 32767 | _ \<Rightarrow> False)"

fun wf_tag :: "tag \<Rightarrow> bool"
  and wf_items :: "kind \<Rightarrow> int \<Rightarrow> tag list \<Rightarrow> bool"
  and wf_children :: "tag list \<Rightarrow> bool"
where
  "wf_tag (TAG TAG_Byte n (PInt i)) = in_range 1 i"
| "wf_tag (TAG TAG_Short n (PInt i)) = in_range 2 i"
| "wf_tag (TAG TAG_Int n (PInt i)) = in_range 4 i"
| "wf_tag (TAG TAG_Long n (PInt i)) = in_range 8 i"
| "wf_tag (TAG TAG_String n (PStr s)) = wf_string (PStr s)"
| "wf_tag (TAG TAG_Byte_Array n (PList xs)) = (length xs < 2 ^ 31 \<and> wf_items TAG_Byte 0 xs)"
| "wf_tag (TAG TAG_List n (PList xs)) =
     (length xs < 2 ^ 31 \<and> (case xs of [] \<Rightarrow> True | x # _ \<Rightarrow> wf_items (cls x) 0 xs))"
| "wf_tag (TAG TAG_Compound n (PList xs)) = wf_children xs"
| "wf_tag _ = False"
| "wf_items k i [] = True"
| "wf_items k i (x # xs) = (cls x = k \<and> name x = PInt i \<and> wf_tag x \<and> wf_items k (i + 1) xs)"
| "wf_children [] = True"
| "wf_children (x # xs) = (wf_string (name x) \<and> wf_tag x \<and> wf_children xs)"

text \<open>A tag at the top level of a buffer is named by a string as well.\<close>

definition wf_top :: "tag \<Rightarrow> bool" where
  "wf_top t = (wf_string (name t) \<and> wf_tag t)"

text \<open>The bytes of a string of ASCII characters: length prefix, then the characters.\<close>

definition str_bytes :: "pystr \<Rightarrow> byte list" where
  "str_bytes s = le_bytes 2 (int (length s)) @ map of_nat s"

text \<open>
  A result of the decoders that is not the exhausted depth bound and, when it
  is a value, leaves no more of the buffer than there was.
\<close>

definition returns_within :: "DataReader \<Rightarrow> (error + 'a \<times> DataReader) option \<Rightarrow> bool" where
  "returns_within r res =
     (case res of
        None \<Rightarrow> False
      | Some (Inl e) \<Rightarrow> True
      | Some (Inr (p, r')) \<Rightarrow> length (remaining r') \<le> length (remaining r))"

text \<open>An array of the shape (16, 16, 16).\<close>

definition shape16 :: "'a list list list \<Rightarrow> bool" where
  "shape16 arr =
     (length arr = 16 \<and> list_all (\<lambda>p. length p = 16 \<and> list_all (\<lambda>r. length r = 16) p) arr)"

text \<open>
  Word \<open>i\<close> of the packed indices, as a number: slot \<open>j\<close> of the word holds the
  index at the flat position \<open>i * bpw + j\<close>, \<open>bits * j\<close> bits up, and a slot past
  the last position holds zero.
\<close>

definition slot :: "nat \<Rightarrow> 32 word list \<Rightarrow> nat \<Rightarrow> nat \<Rightarrow> int" where
  "slot bpw ids i j = (if i * bpw + j < 4096 then uint (ids ! (i * bpw + j)) else 0)"

definition packed_word :: "nat \<Rightarrow> nat \<Rightarrow> 32 word list \<Rightarrow> nat \<Rightarrow> int" where
  "packed_word bits bpw ids i =
     (\<Sum>j<bpw. (if i * bpw + j < 4096 then uint (ids ! (i * bpw + j)) else 0) * 2 ^ (bits * j))"

text \<open>
  The layout of the packed indices: the byte \<^verbatim>\<open>bitsPerBlock << 1\<close>, then the words,
  four bytes each, low byte first.
\<close>

definition blocks_bytes :: "nat \<Rightarrow> 32 word list \<Rightarrow> byte list" where
  "blocks_bytes p ids =
     (let bits = bitsPerBlock_of p; bpw = 32 div bits;
          nw = nat (- ((- 4096) div int bpw))
      in le_bytes 1 (int (push_bit 1 bits))
         @ concat (map (\<lambda>i. le_bytes 4 (packed_word bits bpw ids i)) [0..<nw]))"

text \<open>
  One step of the loop of \<^verbatim>\<open>_savePalette\<close> on the palette, and the position that
  \<^verbatim>\<open>palette.index\<close> finds (0 when it raises).
\<close>

definition palette_add :: "tag list \<Rightarrow> Block \<Rightarrow> tag list" where
  "palette_add pal b = (if palette_entry b \<in> set pal then pal else pal @ [palette_entry b])"

definition index_in :: "'a list \<Rightarrow> 'a \<Rightarrow> nat" where
  "index_in xs x = (case py_index xs x of Inl e \<Rightarrow> 0 | Inr k \<Rightarrow> k)"

text \<open>
  The block that \<^verbatim>\<open>SubChunk.__init__\<close> builds from the palette entry of a block:
  \<^verbatim>\<open>Block(name, dv)\<close>, whose \<^verbatim>\<open>nbt\<close> is \<^verbatim>\<open>None\<close>.
\<close>

definition strip_nbt :: "Block \<Rightarrow> Block" where
  "strip_nbt b = b\<lparr>nbt := None\<rparr>"

text \<open>
  The blocks whose palette entry survives the tag codec: the name is a
  string of at most 32767 ASCII characters and the data value fits the format
  \<^verbatim>\<open>"h"\<close> of a \<^verbatim>\<open>TAG_Short\<close>.
\<close>

definition wf_block :: "Block \<Rightarrow> bool" where
  "wf_block b =
     (wf_string (block_name b) \<and> (case dv b of PInt d \<Rightarrow> in_range 2 d | _ \<Rightarrow> False))"

definition wf_volume :: "Block list list list \<Rightarrow> bool" where
  "wf_volume arr = list_all (list_all (list_all wf_block)) arr"

text \<open>
  The blocks of a subchunk in the order of the buffer, and the palette that
  \<^verbatim>\<open>_savePalette\<close> builds for them.
\<close>

definition wire_blocks :: "SubChunk \<Rightarrow> Block list" where
  "wire_blocks sc = flatten3 (swapaxes12 (blocks sc))"

definition palette_of :: "SubChunk \<Rightarrow> tag list" where
  "palette_of sc = foldl palette_add [] (wire_blocks sc)"

text \<open>
  \<^verbatim>\<open>SubChunk.save\<close> followed by \<^verbatim>\<open>SubChunk.__init__\<close> at the same coordinates, on the
  buffer that \<^verbatim>\<open>save\<close> handed to \<^verbatim>\<open>ldb.put\<close>.
\<close>

definition save_then_decode :: "SubChunk \<Rightarrow> (error + SubChunk) option" where
  "save_then_decode sc =
     (case save_data sc of
        Inl e \<Rightarrow> Some (Inl e)
      | Inr d \<Rightarrow> SubChunk_decode (sub_x sc) (sub_z sc) (sub_y sc) d)"

text \<open>
  The reader over the first \<open>n\<close> bytes of its buffer, at the same position; and
  how the result of a decoder on the whole buffer fixes its result on those
  \<open>n\<close> bytes: a value read before the cut is read again, and a value that
  reaches past the cut becomes a \<^verbatim>\<open>struct.error\<close>.
\<close>

definition cut :: "nat \<Rightarrow> DataReader \<Rightarrow> DataReader" where
  "cut n r = r\<lparr>data := take n (data r)\<rparr>"

definition cut_outcome ::
  "nat \<Rightarrow> DataReader \<Rightarrow> (error + 'a \<times> DataReader) option
     \<Rightarrow> (error + 'a \<times> DataReader) option \<Rightarrow> bool" where
  "cut_outcome n r res res' =
     (case res of
        Some (Inr (p, r1)) \<Rightarrow>
          idx r \<le> idx r1 \<and>
          (if idx r \<le> n
           then res' = (if idx r1 \<le> n then Some (Inr (p, cut n r1)) else Some (Inl StructError))
           else True)
      | _ \<Rightarrow> True)"

text \<open>
  A subchunk buffer that ends with its palette: after the packed indices and
  the count, the loop of \<^verbatim>\<open>_loadPalette\<close> reads the tags up to the last byte.
\<close>

definition palette_ends_buffer :: "byte list \<Rightarrow> bool" where
  "palette_ends_buffer d =
     (case loadBlocks (drop 2 d) of
        Inl e \<Rightarrow> False
      | Inr (raw, rest) \<Rightarrow>
          (case unpack_I1 (take 4 rest) of
             Inl e \<Rightarrow> False
           | Inr palletLen \<Rightarrow>
               (case palette_loop (nat palletLen) (reader (drop 4 rest)) [] of
                  Some (Inr (palette, dr)) \<Rightarrow> idx dr = length (drop 4 rest)
                | _ \<Rightarrow> False)))"

section \<open>Verification\<close>

subsection \<open>Little-endian integers and the cursor\<close>

lemma length_le_bytes [simp]: "length (le_bytes n v) = n"
  by (induction n arbitrary: v) auto

lemma le_bytes_numeral:
  "le_bytes (numeral k) v = word_of_int v # le_bytes (pred_numeral k) (v div 256)"
  by (simp add: numeral_eq_Suc)

lemma le_uint_le_bytes: "le_uint (le_bytes n v) = v mod 2 ^ (8 * n)"
proof (induction n arbitrary: v)
  case 0
  show ?case by simp
next
  case (Suc n)
  have "uint (word_of_int v :: byte) = v mod 256"
    by (simp add: uint_word_of_int)
  moreover have "v mod (256 * 2 ^ (8 * n)) = 256 * (v div 256 mod 2 ^ (8 * n)) + v mod 256"
    by (rule zmod_zmult2_eq) simp
  moreover have "(2::int) ^ (8 * Suc n) = 256 * 2 ^ (8 * n)"
    by (simp add: power_add)
  ultimately show ?case using Suc by simp
qed

lemma unpack_int_le_bytes:
  assumes "0 < n" "in_range n v"
  shows "unpack_int (le_bytes n v) = v"
proof -
  have p: "(2::int) ^ (8 * n) = 2 * 2 ^ (8 * n - 1)"
    using assms(1) by (metis mult_pos_pos power_eq_if zero_less_numeral less_numeral_extra(3) mult_is_0)
  show ?thesis
  proof (cases "0 \<le> v")
    case True
    then have "v mod 2 ^ (8 * n) = v" using assms(2) p by (simp add: in_range_def)
    then show ?thesis using assms(2) by (simp add: unpack_int_def le_uint_le_bytes in_range_def)
  next
    case False
    have "(v + 2 ^ (8 * n)) mod 2 ^ (8 * n) = v + 2 ^ (8 * n)"
      by (rule mod_pos_pos_trivial) (use False assms(2) p in \<open>simp_all add: in_range_def\<close>)
    then have "v mod 2 ^ (8 * n) = v + 2 ^ (8 * n)"
      by simp
    then show ?thesis using assms(2) False p by (simp add: unpack_int_def le_uint_le_bytes in_range_def)
  qed
qed

lemma le_uint_bounds: "0 \<le> le_uint bs \<and> le_uint bs < 2 ^ (8 * length bs)"
proof (induction bs)
  case Nil show ?case by simp
next
  case (Cons b bs)
  have "uint b < 256" using uint_bounded[of b] by simp
  moreover have "0 \<le> uint b" by simp
  moreover have "(2::int) ^ (8 * Suc (length bs)) = 256 * 2 ^ (8 * length bs)" by (simp add: power_add)
  ultimately show ?case using Cons by (auto simp: )
qed

lemma fmt_ok [simp]:
  "fmt (Suc 0) = Inr ()" "fmt 2 = Inr ()" "fmt 4 = Inr ()" "fmt 8 = Inr ()"
  by (simp_all add: fmt_def)

lemma put_int:
  "fmt sz = Inr () \<Longrightarrow> in_range sz v \<Longrightarrow> put sz (PInt v) w = Inr (w @ le_bytes sz v)"
  by (simp add: put_def pack_int_def in_range_def)

lemma put_int_out:
  "\<not> in_range sz v \<Longrightarrow> put sz (PInt v) w = Inl (case fmt sz of Inl e \<Rightarrow> e | Inr _ \<Rightarrow> StructError)"
  by (auto simp add: put_def pack_int_def in_range_def split: sum.splits)

lemma remaining_advance: "remaining (advance n r) = drop n (remaining r)"
  by (simp add: remaining_def advance_def add.commute)

lemma data_advance [simp]: "data (advance n r) = data r"
  by (simp add: advance_def)

lemma idx_advance [simp]: "idx (advance n r) = idx r + n"
  by (simp add: advance_def)

lemma advance_advance [simp]: "advance m (advance n r) = advance (n + m) r"
  by (simp add: advance_def add.assoc)

lemma advance_0 [simp]: "advance 0 r = r"
  by (simp add: advance_def)

lemma pop_exact:
  assumes "fmt sz = Inr ()" "0 < sz" "in_range sz v" "remaining r = le_bytes sz v @ rest"
  shows "pop sz r = Inr (v, advance sz r)"
proof -
  have "take sz (drop (idx r) (data r)) = le_bytes sz v"
    using assms(4) by (simp add: remaining_def)
  then show ?thesis
    using assms(1-3) by (simp add: pop_def unpack_int_le_bytes advance_def)
qed

lemma pop_short:
  assumes "fmt sz = Inr ()" "length (remaining r) < sz"
  shows "pop sz r = Inl StructError"
  using assms by (simp add: pop_def remaining_def)

lemma utf8_encode_ascii: "ascii s \<Longrightarrow> utf8_encode s = Some (map of_nat s)"
  by (induction s) (auto simp: ascii_def utf8_char_def)

lemma utf8_decode_ascii: "ascii s \<Longrightarrow> utf8_decode (map of_nat s) = Some s"
  by (induction s) (auto simp: ascii_def unat_of_nat)

lemma length_str_bytes [simp]: "length (str_bytes s) = 2 + length s"
  by (simp add: str_bytes_def)

lemma in_range_len: "length s \<le> 32767 \<Longrightarrow> in_range 2 (int (length s))"
  by (simp add: in_range_def)

lemma putString_ok: "wf_string (PStr s) \<Longrightarrow> putString (PStr s) w = Inr (w @ str_bytes s)"
  by (simp add: putString_def py_len_def wf_string_def put_int in_range_len utf8_encode_ascii
      pack_s_def str_bytes_def)

lemma popString_ok:
  assumes "wf_string (PStr s)" "remaining r = str_bytes s @ rest"
  shows "popString r = Inr (s, advance (length (str_bytes s)) r)"
proof -
  have a: "ascii s" and l: "length s \<le> 32767" using assms(1) by (simp_all add: wf_string_def)
  have p: "pop 2 r = Inr (int (length s), advance 2 r)"
    using assms(2) by (intro pop_exact[where rest = "map of_nat s @ rest"])
      (simp_all add: in_range_len l str_bytes_def)
  have "remaining (advance 2 r) = map of_nat s @ rest"
    using assms(2) by (simp add: remaining_advance str_bytes_def)
  then have t: "take (length s) (drop (idx r + 2) (data r)) = map of_nat s"
    by (simp add: remaining_def)
  have tl: "length s \<le> length (data r) - Suc (Suc (idx r))"
    using arg_cong[OF t, of length] by simp
  show ?thesis
    using p t tl a
    by (simp add: popString_def utf8_decode_ascii advance_def add.commute min_absorb2)
qed

lemma popString_short:
  assumes "wf_string (PStr s)" "str_bytes s = remaining r @ q" "q \<noteq> []"
  shows "popString r = Inl StructError"
proof (cases "length (remaining r) < 2")
  case True
  then show ?thesis by (simp add: popString_def pop_short)
next
  case False
  have l: "length s \<le> 32767" using assms(1) by (simp_all add: wf_string_def)
  have len: "length (remaining r) + length q = 2 + length s"
    using arg_cong[OF assms(2), of length] by simp
  have "le_bytes 2 (int (length s)) = take 2 (remaining r @ q)"
    using assms(2)[symmetric] by (simp add: str_bytes_def)
  also have "\<dots> = take 2 (remaining r)" using False by simp
  finally have "remaining r = le_bytes 2 (int (length s)) @ drop 2 (remaining r)"
    by (metis append_take_drop_id)
  then have p: "pop 2 r = Inr (int (length s), advance 2 r)"
    by (intro pop_exact[where rest = "drop 2 (remaining r)"]) (simp_all add: in_range_len l)
  have "length (remaining (advance 2 r)) < length s"
    using len False assms(3) by (cases q) (simp_all add: remaining_advance)
  then have "length (take (length s) (drop (idx r + 2) (data r))) \<noteq> length s"
    by (simp add: remaining_def advance_def)
  then show ?thesis using p by (simp add: popString_def advance_def Let_def)
qed

text \<open>The equations that evaluate the codec on a concrete buffer or tag.\<close>

lemmas eval_simps = encode_def decode_def decode_fuel_def reader_def pop_def fmt_def unpack_int_def
  py_getitem_def tags_def popString_def put_def pack_int_def putString_def py_len_def pack_s_def
  utf8_char_def cont_def le_bytes_numeral wf_top_def wf_string_def ascii_def in_range_def

subsection \<open>The writer only appends\<close>

lemma tag_induct_set [case_names TAG]:
  assumes "\<And>k n p. (\<And>xs x. p = PList xs \<Longrightarrow> x \<in> set xs \<Longrightarrow> Q x) \<Longrightarrow> Q (TAG k n p)"
  shows "Q t"
proof -
  have "(\<forall>xs x. p = PList xs \<longrightarrow> x \<in> set xs \<longrightarrow> Q x) \<and> Q t" for p
    by (rule pyval_tag.induct) (auto intro: assms)
  then show ?thesis by simp
qed

lemma frame_simps [simp]: "frame w (Inl e) = Inl e" "frame w (Inr bs) = Inr (w @ bs)"
  by (simp_all add: frame_def)

lemma put_append: "put sz v (w @ u) = frame w (put sz v u)"
  by (simp add: put_def split: sum.splits)

lemma putString_append: "putString s (w @ u) = frame w (putString s u)"
  by (simp add: putString_def put_append frame_def split: sum.splits pyval.splits option.splits)

lemma encode_items_append_aux:
  assumes "\<And>x w u. x \<in> set xs \<Longrightarrow> tag_encode x (w @ u) = frame w (tag_encode x u)"
  shows "encode_items xs (w @ u) = frame w (encode_items xs u)"
  using assms
proof (induction xs arbitrary: u)
  case Nil
  show ?case by simp
next
  case (Cons x xs)
  show ?case
  proof (cases "tag_encode x u")
    case (Inl e)
    then show ?thesis using Cons.prems[of x w u] by simp
  next
    case (Inr u1)
    then show ?thesis using Cons.prems[of x w u] Cons.IH[of u1] Cons.prems by simp
  qed
qed

lemma encode_children_append_aux:
  assumes "\<And>x w u. x \<in> set xs \<Longrightarrow> tag_encode x (w @ u) = frame w (tag_encode x u)"
  shows "encode_children xs (w @ u) = frame w (encode_children xs u)"
  using assms
proof (induction xs arbitrary: u)
  case Nil
  show ?case by simp
next
  case (Cons x xs)
  have ih: "encode_children xs (w @ u') = frame w (encode_children xs u')" for u'
    using Cons by simp
  have hx: "tag_encode x (w @ u') = frame w (tag_encode x u')" for u'
    using Cons.prems by simp
  show ?case
    by (simp add: put_append putString_append ih hx frame_def split: sum.splits)
qed

lemma tag_encode_append: "tag_encode t (w @ u) = frame w (tag_encode t u)"
proof (induction t arbitrary: w u rule: tag_induct_set)
  case (TAG k n p)
  show ?case
  proof (cases p)
    case (PInt i)
    then show ?thesis by (cases k) (simp_all add: put_append putString_append)
  next
    case (PStr s)
    then show ?thesis
      by (cases k) (simp_all add: put_append putString_append frame_def split: sum.splits)
  next
    case (PList xs)
    have it: "encode_items xs (w' @ u') = frame w' (encode_items xs u')" for w' u'
      using TAG[OF PList] by (intro encode_items_append_aux) 
    have ch: "encode_children xs (w' @ u') = frame w' (encode_children xs u')" for w' u'
      using TAG[OF PList] by (intro encode_children_append_aux) 
    have hd: "(case xs of [] \<Rightarrow> put 1 (PInt 0) (w @ u)
               | x # _ \<Rightarrow> (case py_index tags (Some (cls x)) of Inl e \<Rightarrow> Inl e
                           | Inr i \<Rightarrow> put 1 (PInt (int i)) (w @ u)))
            = frame w (case xs of [] \<Rightarrow> put 1 (PInt 0) u
               | x # _ \<Rightarrow> (case py_index tags (Some (cls x)) of Inl e \<Rightarrow> Inl e
                           | Inr i \<Rightarrow> put 1 (PInt (int i)) u))"
      by (cases xs) (simp_all add: put_append split: sum.splits)
    show ?thesis using PList
      by (cases k) (simp_all add: put_append putString_append it ch hd frame_def split: sum.splits)
  qed
qed

subsection \<open>The layout of an encoded tag\<close>

lemma tag_bytes_eq: "tag_encode t [] = Inr bs \<Longrightarrow> tag_bytes t = bs"
  by (simp add: tag_bytes_def)

lemma encode_bytes_eq: "encode t None = Inr bs \<Longrightarrow> encode_bytes t = bs"
  by (simp add: encode_bytes_def)

lemma tag_encode_frame:
  "tag_encode t [] = Inr (tag_bytes t) \<Longrightarrow> tag_encode t w = Inr (w @ tag_bytes t)"
  using tag_encode_append[of t w "[]"] by simp

lemma encode_items_ok:
  "(\<And>x. x \<in> set xs \<Longrightarrow> tag_encode x [] = Inr (tag_bytes x)) \<Longrightarrow>
     encode_items xs w = Inr (w @ concat (map tag_bytes xs))"
  by (induction xs arbitrary: w) (simp_all add: tag_encode_frame)

lemma py_index_tags: "py_index tags (Some k) = Inr (nat (ID k))"
  by (cases k) (simp_all add: tags_def)

lemma py_getitem_tags_ID: "py_getitem tags (ID k) = Inr (Some k)"
  by (cases k) (simp_all add: tags_def py_getitem_def)

lemma in_range_ID: "in_range 1 (ID k)" "in_range (Suc 0) (ID k)"
  by (cases k; simp add: in_range_def)+

lemma ID_nonzero: "ID k \<noteq> 0"
  by (cases k) simp_all

lemma in_range_count: "length xs < 2 ^ 31 \<Longrightarrow> in_range 4 (int (length xs))"
  by (simp add: in_range_def)

lemma tag_encode_Byte_Array:
  assumes "\<And>x. x \<in> set xs \<Longrightarrow> tag_encode x [] = Inr (tag_bytes x)" "length xs < 2 ^ 31"
  shows "tag_encode (TAG TAG_Byte_Array n (PList xs)) w
         = Inr (w @ le_bytes 4 (int (length xs)) @ concat (map tag_bytes xs))"
  using assms by (simp add: put_int in_range_count encode_items_ok)

lemma tag_encode_List:
  assumes "\<And>x. x \<in> set xs \<Longrightarrow> tag_encode x [] = Inr (tag_bytes x)" "length xs < 2 ^ 31"
  shows "tag_encode (TAG TAG_List n (PList xs)) w
         = Inr (w @ le_bytes 1 (item_kind xs) @ le_bytes 4 (int (length xs))
                  @ concat (map tag_bytes xs))"
proof -
  have hd: "(case xs of [] \<Rightarrow> put 1 (PInt 0) w
             | x # _ \<Rightarrow> (case py_index tags (Some (cls x)) of Inl e \<Rightarrow> Inl e
                         | Inr i \<Rightarrow> put 1 (PInt (int i)) w))
            = Inr (w @ le_bytes 1 (item_kind xs))"
  proof (cases xs)
    case Nil
    then show ?thesis by (simp add: put_int in_range_def item_kind_def)
  next
    case (Cons x ys)
    have "0 \<le> ID (cls x)" by (cases "cls x") simp_all
    then show ?thesis
      using Cons in_range_ID(1)[of "cls x"]
      by (simp add: py_index_tags put_int item_kind_def)
  qed
  show ?thesis
    using assms by (simp add: hd put_int in_range_count encode_items_ok)
qed

lemma encode_top:
  assumes "wf_string (PStr s)" "tag_encode (TAG k (PStr s) p) [] = Inr (tag_bytes (TAG k (PStr s) p))"
  shows "encode (TAG k (PStr s) p) dw
         = Inr ((case dw of None \<Rightarrow> [] | Some w0 \<Rightarrow> w0) @ le_bytes 1 (ID k) @ str_bytes s
                  @ tag_bytes (TAG k (PStr s) p))"
  using assms in_range_ID(1)[of k]
  by (simp add: encode_def put_int putString_ok tag_encode_frame)

lemma encode_children_ok:
  assumes "\<And>x. x \<in> set xs \<Longrightarrow> wf_string (name x) \<and> tag_encode x [] = Inr (tag_bytes x)"
  shows "encode_children xs w = Inr (w @ concat (map encode_bytes xs))"
  using assms
proof (induction xs arbitrary: w)
  case Nil
  show ?case by simp
next
  case (Cons x xs)
  obtain k nm p where x: "x = TAG k nm p" by (cases x)
  have "wf_string nm" using Cons.prems[of x] x by simp
  then obtain s where nm: "nm = PStr s" by (cases nm) (simp_all add: wf_string_def)
  have ws: "wf_string (PStr s)" using \<open>wf_string nm\<close> nm by simp
  have ok: "tag_encode (TAG k (PStr s) p) [] = Inr (tag_bytes (TAG k (PStr s) p))"
    using Cons.prems[of x] x nm by simp
  have eb: "encode_bytes x = le_bytes 1 (ID k) @ str_bytes s @ tag_bytes x"
    using encode_top[OF ws ok, of None] x nm by (simp add: encode_bytes_eq)
  have ih: "encode_children xs w' = Inr (w' @ concat (map encode_bytes xs))" for w'
    using Cons by simp
  show ?case
    using in_range_ID(1)[of k] ws ok
    by (simp add: x nm put_int putString_ok tag_encode_frame ih eb[unfolded x nm])
qed

lemma tag_encode_Compound:
  assumes "\<And>x. x \<in> set xs \<Longrightarrow> wf_string (name x) \<and> tag_encode x [] = Inr (tag_bytes x)"
  shows "tag_encode (TAG TAG_Compound n (PList xs)) w
         = Inr (w @ concat (map encode_bytes xs) @ [0])"
  using encode_children_ok[OF assms] by (simp add: put_int in_range_def)

lemma wf_items_set:
  "wf_items k i xs \<Longrightarrow> x \<in> set xs \<Longrightarrow> wf_tag x \<and> cls x = k"
  by (induction xs arbitrary: i) auto

lemma wf_children_set:
  "wf_children xs \<Longrightarrow> x \<in> set xs \<Longrightarrow> wf_tag x \<and> wf_string (name x)"
  by (induction xs) auto

lemma wf_list_items:
  assumes "wf_tag (TAG TAG_List n (PList xs))" "x \<in> set xs"
  shows "wf_tag x"
  using assms by (cases xs) (auto dest: wf_items_set)

lemma wf_tag_encode: "wf_tag t \<Longrightarrow> tag_encode t [] = Inr (tag_bytes t)"
proof (induction t rule: tag_induct_set)
  case (TAG k n p)
  show ?case
  proof (cases p)
    case (PInt i)
    with TAG.prems show ?thesis
      by (cases k) (simp_all add: put_int tag_bytes_def)
  next
    case (PStr s)
    with TAG.prems show ?thesis
      by (cases k) (simp_all add: putString_ok tag_bytes_def)
  next
    case (PList xs)
    show ?thesis
    proof (cases k)
      case TAG_Byte_Array
      have "tag_encode x [] = Inr (tag_bytes x)" if "x \<in> set xs" for x
        using TAG.IH[OF PList that] TAG.prems PList TAG_Byte_Array that wf_items_set
        by auto
      then show ?thesis
        using TAG.prems PList TAG_Byte_Array tag_encode_Byte_Array[of xs n "[]"]
        by (simp add: tag_bytes_def)
    next
      case TAG_List
      have "tag_encode x [] = Inr (tag_bytes x)" if "x \<in> set xs" for x
        using TAG.IH[OF PList that] TAG.prems PList TAG_List that wf_list_items
        by blast
      then show ?thesis
        using TAG.prems PList TAG_List tag_encode_List[of xs n "[]"]
        by (simp add: tag_bytes_def)
    next
      case TAG_Compound
      have "wf_string (name x) \<and> tag_encode x [] = Inr (tag_bytes x)" if "x \<in> set xs" for x
        using TAG.IH[OF PList that] TAG.prems PList TAG_Compound that wf_children_set
        by auto
      then show ?thesis
        using PList TAG_Compound tag_encode_Compound[of xs n "[]"]
        by (simp add: tag_bytes_def)
    qed (use TAG.prems PList in simp_all)
  qed
qed

subsection \<open>Decoding an encoded tag\<close>

lemma wf_scalar:
  assumes "wf_tag x" "cls x = k"
    "k = TAG_Byte \<and> sz = 1 \<or> k = TAG_Short \<and> sz = 2 \<or> k = TAG_Int \<and> sz = 4
       \<or> k = TAG_Long \<and> sz = 8"
  shows "\<exists>v. payload x = PInt v \<and> in_range sz v \<and> tag_bytes x = le_bytes sz v"
proof -
  obtain k' n p where x: "x = TAG k' n p" by (cases x)
  show ?thesis
  proof (cases p)
    case (PInt v)
    then show ?thesis using assms x by (auto simp: put_int tag_bytes_def)
  next
    case (PStr s)
    then show ?thesis using assms x by auto
  next
    case (PList xs)
    then show ?thesis using assms x by auto
  qed
qed

lemma length_remaining_advance:
  "length (remaining (advance n r)) = length (remaining r) - n"
  by (simp add: remaining_advance)

lemma bytes_loop_roundtrip:
  assumes "wf_items TAG_Byte i xs" "remaining r = concat (map tag_bytes xs) @ rest"
  shows "bytes_loop i (length xs) r acc
         = Inr (acc @ xs, advance (length (concat (map tag_bytes xs))) r)"
  using assms
proof (induction xs arbitrary: i r acc)
  case Nil
  show ?case by simp
next
  case (Cons x xs)
  from Cons.prems(1) have wx: "wf_tag x" "cls x = TAG_Byte" "name x = PInt i"
    and wxs: "wf_items TAG_Byte (i + 1) xs" by simp_all
  from wf_scalar[OF wx(1,2), of 1] obtain v where
    v: "payload x = PInt v" "in_range 1 v" "tag_bytes x = le_bytes 1 v" by auto
  have x: "x = TAG TAG_Byte (PInt i) (PInt v)"
    using wx v by (cases x) simp
  have p: "pop 1 r = Inr (v, advance 1 r)"
    using Cons.prems(2) v by (intro pop_exact[where rest = "concat (map tag_bytes xs) @ rest"]) simp_all
  have rem: "remaining (advance 1 r) = concat (map tag_bytes xs) @ rest"
    using Cons.prems(2) v by (simp add: remaining_advance)
  show ?case
    using p Cons.IH[OF wxs rem, of "acc @ [x]"] v(3) by (simp add: x[symmetric])
qed

lemma list_loop_roundtrip:
  assumes IH: "\<And>x r rest f. x \<in> set xs \<Longrightarrow> remaining r = tag_bytes x @ rest \<Longrightarrow>
                  length (remaining r) < f \<Longrightarrow>
                  tag_decode f (cls x) r = Some (Inr (payload x, advance (length (tag_bytes x)) r))"
    and "wf_items k i xs" "py_getitem tags itemID = Inr (Some k)"
    and "remaining r = concat (map tag_bytes xs) @ rest" "length (remaining r) < f"
  shows "list_loop f itemID i (length xs) r acc
         = Some (Inr (acc @ xs, advance (length (concat (map tag_bytes xs))) r))"
  using assms
proof (induction xs arbitrary: i r acc)
  case Nil
  show ?case by simp
next
  case (Cons x xs)
  from Cons.prems(2) have wx: "cls x = k" "name x = PInt i"
    and wxs: "wf_items k (i + 1) xs" by simp_all
  have x: "TAG k (PInt i) (payload x) = x" using wx by (cases x) simp
  have d: "tag_decode f k r = Some (Inr (payload x, advance (length (tag_bytes x)) r))"
    using Cons.prems(1)[of x r "concat (map tag_bytes xs) @ rest" f] Cons.prems(4,5) wx by simp
  have rem: "remaining (advance (length (tag_bytes x)) r) = concat (map tag_bytes xs) @ rest"
    using Cons.prems(4) by (simp add: remaining_advance)
  have len: "length (remaining (advance (length (tag_bytes x)) r)) < f"
    using Cons.prems(5) by (simp add: length_remaining_advance)
  have "list_loop f itemID (i + 1) (length xs) (advance (length (tag_bytes x)) r) (acc @ [x])
        = Some (Inr ((acc @ [x]) @ xs,
              advance (length (concat (map tag_bytes xs))) (advance (length (tag_bytes x)) r)))"
    using Cons.prems(1) by (intro Cons.IH[OF _ wxs Cons.prems(3) rem len]) simp_all
  then show ?case
    using d Cons.prems(3) by (simp add: x)
qed

lemma le_bytes_1: "le_bytes (Suc 0) v = [word_of_int v]"
  by simp

lemma compound_loop_roundtrip:
  assumes IH: "\<And>x r rest f. x \<in> set xs \<Longrightarrow> remaining r = tag_bytes x @ rest \<Longrightarrow>
                  length (remaining r) < f \<Longrightarrow>
                  tag_decode f (cls x) r = Some (Inr (payload x, advance (length (tag_bytes x)) r))"
    and "wf_children xs"
    and "remaining r = concat (map encode_bytes xs) @ 0 # rest" "length (remaining r) \<le> f"
  shows "(case pop 1 r of Inl e \<Rightarrow> Some (Inl e)
          | Inr (tagID, r1) \<Rightarrow> compound_loop f tagID r1 acc)
         = Some (Inr (acc @ xs, advance (length (concat (map encode_bytes xs)) + 1) r))"
  using assms
proof (induction xs arbitrary: r acc f)
  case Nil
  have p: "pop 1 r = Inr (0, advance 1 r)"
    using Nil.prems(3) by (intro pop_exact[where rest = rest]) (simp_all add: in_range_def)
  obtain f' where f: "f = Suc f'" using Nil.prems(3,4) by (cases f) auto
  show ?case using p f by simp
next
  case (Cons x xs)
  obtain k nm p where x: "x = TAG k nm p" by (cases x)
  from Cons.prems(2) have wn: "wf_string nm" and wx: "wf_tag x" and wxs: "wf_children xs"
    using x by simp_all
  obtain s where nm: "nm = PStr s" using wn by (cases nm) (simp_all add: wf_string_def)
  have ws: "wf_string (PStr s)" using wn nm by simp
  have eb: "encode_bytes x = le_bytes 1 (ID k) @ str_bytes s @ tag_bytes x"
    using encode_top[OF ws, of k p None] wf_tag_encode[OF wx] x nm by (simp add: encode_bytes_eq)
  let ?tail = "concat (map encode_bytes xs) @ 0 # rest"
  have rem0: "remaining r = le_bytes 1 (ID k) @ (str_bytes s @ tag_bytes x @ ?tail)"
    using Cons.prems(3) eb by simp
  have p1: "pop 1 r = Inr (ID k, advance 1 r)"
    using rem0 by (intro pop_exact) (simp_all add: in_range_ID)
  obtain f' where f: "f = Suc f'" using rem0 Cons.prems(4) by (cases f) auto
  have rem1: "remaining (advance 1 r) = str_bytes s @ (tag_bytes x @ ?tail)"
    using rem0 by (simp add: remaining_advance)
  have p2: "popString (advance 1 r) = Inr (s, advance (1 + length (str_bytes s)) r)"
    using popString_ok[OF ws rem1] by simp
  let ?r2 = "advance (1 + length (str_bytes s)) r"
  have rem2: "remaining ?r2 = tag_bytes x @ ?tail"
    using rem0 by (simp add: remaining_advance)
  have len2: "length (remaining ?r2) < f'"
    using Cons.prems(4) f rem0 by (simp add: length_remaining_advance)
  have d: "tag_decode f' k ?r2 = Some (Inr (p, advance (length (tag_bytes x)) ?r2))"
    using Cons.prems(1)[of x ?r2 ?tail f'] rem2 len2 x by simp
  let ?r3 = "advance (length (tag_bytes x)) ?r2"
  have rem3: "remaining ?r3 = ?tail"
    by (subst remaining_advance, subst rem2, simp)
  have len3: "length (remaining ?r3) \<le> f'"
    using len2 by (subst length_remaining_advance) linarith
  have ih: "(case pop 1 ?r3 of Inl e \<Rightarrow> Some (Inl e)
          | Inr (tagID, r1) \<Rightarrow> compound_loop f' tagID r1 (acc @ [x]))
         = Some (Inr ((acc @ [x]) @ xs, advance (length (concat (map encode_bytes xs)) + 1) ?r3))"
    using Cons.prems(1) by (intro Cons.IH[OF _ wxs rem3 len3]) simp_all
  have sz: "1 + length (str_bytes s) + length (tag_bytes x) = length (encode_bytes x)"
    using eb by simp
  show ?case
    using p1 f ID_nonzero[of k] py_getitem_tags_ID[of k] p2 d ih[unfolded x nm]
    by (simp add: x nm sz[unfolded x nm, symmetric] add.assoc)
qed

lemma wf_String_payload:
  "wf_tag (TAG TAG_String n p) \<Longrightarrow> \<exists>s. p = PStr s \<and> wf_string (PStr s)"
  by (cases p) simp_all

lemma wf_Byte_Array_payload:
  "wf_tag (TAG TAG_Byte_Array n p) \<Longrightarrow> \<exists>xs. p = PList xs \<and> length xs < 2 ^ 31 \<and> wf_items TAG_Byte 0 xs"
  by (cases p) simp_all

lemma wf_List_payload:
  "wf_tag (TAG TAG_List n p) \<Longrightarrow>
     \<exists>xs. p = PList xs \<and> length xs < 2 ^ 31 \<and> (xs = [] \<or> wf_items (cls (hd xs)) 0 xs)"
  by (cases p) (auto split: list.splits)

lemma wf_Compound_payload:
  "wf_tag (TAG TAG_Compound n p) \<Longrightarrow> \<exists>xs. p = PList xs \<and> wf_children xs"
  by (cases p) simp_all

lemma tag_decode_scalar:
  assumes "wf_tag (TAG k n p)"
    "k = TAG_Byte \<and> sz = (1::nat) \<or> k = TAG_Short \<and> sz = 2 \<or> k = TAG_Int \<and> sz = 4
       \<or> k = TAG_Long \<and> sz = 8"
    "remaining r = tag_bytes (TAG k n p) @ rest"
  shows "tag_decode f k r = Some (Inr (p, advance (length (tag_bytes (TAG k n p))) r))"
proof -
  from wf_scalar[OF assms(1) _ assms(2)] obtain v where
    v: "p = PInt v" "in_range sz v" "tag_bytes (TAG k n p) = le_bytes sz v" by auto
  have "fmt sz = Inr ()" "0 < sz" using assms(2) by auto
  then have "pop sz r = Inr (v, advance sz r)"
    using v assms(3) by (intro pop_exact[where rest = rest]) simp_all
  then show ?thesis using assms(2) v by auto
qed

lemma tag_decode_roundtrip:
  "wf_tag t \<Longrightarrow> remaining r = tag_bytes t @ rest \<Longrightarrow> length (remaining r) < f \<Longrightarrow>
   tag_decode f (cls t) r = Some (Inr (payload t, advance (length (tag_bytes t)) r))"
proof (induction t arbitrary: r rest f rule: tag_induct_set)
  case (TAG k n p)
  note wf = TAG.prems(1) and rem = TAG.prems(2) and len = TAG.prems(3)
  show ?case
  proof (cases k)
    case TAG_Byte
    then show ?thesis using tag_decode_scalar[OF wf _ rem, of 1 f] by simp
  next
    case TAG_Short
    then show ?thesis using tag_decode_scalar[OF wf _ rem, of 2 f] by simp
  next
    case TAG_Int
    then show ?thesis using tag_decode_scalar[OF wf _ rem, of 4 f] by simp
  next
    case TAG_Long
    then show ?thesis using tag_decode_scalar[OF wf _ rem, of 8 f] by simp
  next
    case TAG_String
    then obtain s where s: "p = PStr s" "wf_string (PStr s)"
      using wf wf_String_payload by blast
    have tb: "tag_bytes (TAG k n p) = str_bytes s"
      using s TAG_String by (simp add: tag_bytes_def putString_ok)
    show ?thesis
      using popString_ok[OF s(2), of r rest] rem tb TAG_String s by simp
  next
    case TAG_Byte_Array
    then obtain xs where xs: "p = PList xs" "length xs < 2 ^ 31" "wf_items TAG_Byte 0 xs"
      using wf wf_Byte_Array_payload by blast
    have ok: "tag_encode x [] = Inr (tag_bytes x)" if "x \<in> set xs" for x
      using wf_items_set[OF xs(3) that] wf_tag_encode by blast
    have tb: "tag_bytes (TAG k n p) = le_bytes 4 (int (length xs)) @ concat (map tag_bytes xs)"
      using tag_encode_Byte_Array[OF ok xs(2), of n "[]"] xs(1) TAG_Byte_Array
      by (simp add: tag_bytes_eq)
    have p4: "pop 4 r = Inr (int (length xs), advance 4 r)"
      using rem tb xs(2)
      by (intro pop_exact[where rest = "concat (map tag_bytes xs) @ rest"])
         (simp_all add: in_range_count)
    have rem1: "remaining (advance 4 r) = concat (map tag_bytes xs) @ rest"
      using rem tb by (simp add: remaining_advance)
    show ?thesis
      using p4 bytes_loop_roundtrip[OF xs(3) rem1, of "[]"] TAG_Byte_Array xs(1) tb
      by (simp add: add.commute)
  next
    case TAG_List
    then obtain xs where xs: "p = PList xs" "length xs < 2 ^ 31"
        "xs = [] \<or> wf_items (cls (hd xs)) 0 xs"
      using wf wf_List_payload by blast
    have wfx: "wf_tag x" if "x \<in> set xs" for x
      using xs(3) that wf_items_set by (cases xs) auto
    have ok: "tag_encode x [] = Inr (tag_bytes x)" if "x \<in> set xs" for x
      using wfx[OF that] wf_tag_encode by blast
    have tb: "tag_bytes (TAG k n p) = le_bytes 1 (item_kind xs) @ le_bytes 4 (int (length xs))
                @ concat (map tag_bytes xs)"
      using tag_encode_List[OF ok xs(2), of n "[]"] xs(1) TAG_List
      by (simp add: tag_bytes_eq)
    have ir: "in_range 1 (item_kind xs)"
      by (cases xs) (simp_all add: item_kind_def in_range_ID, simp add: in_range_def)
    have p1: "pop 1 r = Inr (item_kind xs, advance 1 r)"
      using rem tb ir
      by (intro pop_exact[where rest = "le_bytes 4 (int (length xs)) @ concat (map tag_bytes xs) @ rest"])
         simp_all
    have rem1: "remaining (advance 1 r) = le_bytes 4 (int (length xs)) @ concat (map tag_bytes xs) @ rest"
      using rem tb by (simp add: remaining_advance)
    have p4: "pop 4 (advance 1 r) = Inr (int (length xs), advance 5 r)"
      using pop_exact[OF _ _ in_range_count[OF xs(2)] rem1] by simp
    have rem2: "remaining (advance 5 r) = concat (map tag_bytes xs) @ rest"
      using rem tb by (simp add: remaining_advance)
    obtain f' where f: "f = Suc f'" using len rem tb by (cases f) auto
    have len2: "length (remaining (advance 5 r)) < f'"
      using len f rem tb by (simp add: length_remaining_advance)
    have loop: "list_loop f' (item_kind xs) 0 (length xs) (advance 5 r) []
                = Some (Inr ([] @ xs, advance (length (concat (map tag_bytes xs))) (advance 5 r)))"
    proof (cases xs)
      case Nil
      then show ?thesis by simp
    next
      case (Cons y ys)
      then have wi: "wf_items (cls y) 0 xs" using xs(3) by simp
      have gi: "py_getitem tags (item_kind xs) = Inr (Some (cls y))"
        using Cons by (simp add: item_kind_def py_getitem_tags_ID)
      show ?thesis
        using TAG.IH[OF xs(1)] wfx
        by (intro list_loop_roundtrip[OF _ wi gi rem2 len2]) blast
    qed
    show ?thesis
      using p1 p4 loop f TAG_List xs(1) tb by (simp add: add.commute)
  next
    case TAG_Compound
    then obtain xs where xs: "p = PList xs" "wf_children xs"
      using wf wf_Compound_payload by blast
    have ok: "wf_string (name x) \<and> tag_encode x [] = Inr (tag_bytes x)" if "x \<in> set xs" for x
      using wf_children_set[OF xs(2) that] wf_tag_encode by blast
    have tb: "tag_bytes (TAG k n p) = concat (map encode_bytes xs) @ [0]"
      using tag_encode_Compound[OF ok, of xs n "[]"] xs(1) TAG_Compound
      by (simp add: tag_bytes_eq)
    have rem0: "remaining r = concat (map encode_bytes xs) @ 0 # rest"
      using rem tb by simp
    obtain f' where f: "f = Suc f'" using len rem0 by (cases f) auto
    have len0: "length (remaining r) \<le> f'" using len f by simp
    have "(case pop 1 r of Inl e \<Rightarrow> Some (Inl e)
          | Inr (tagID, r1) \<Rightarrow> compound_loop f' tagID r1 [])
         = Some (Inr ([] @ xs, advance (length (concat (map encode_bytes xs)) + 1) r))"
      using TAG.IH[OF xs(1)] wf_children_set[OF xs(2)]
      by (intro compound_loop_roundtrip[OF _ xs(2) rem0 len0]) blast
    then show ?thesis
      using f TAG_Compound xs(1) tb by (auto split: sum.splits)
  qed
qed

lemma decode_fuel_roundtrip:
  assumes "wf_top t" "remaining r = encode_bytes t @ rest" "length (remaining r) \<le> f"
  shows "decode_fuel f r = Some (Inr (t, advance (length (encode_bytes t)) r))"
proof -
  obtain k nm p where t: "t = TAG k nm p" by (cases t)
  from assms(1) have wn: "wf_string nm" and wt: "wf_tag t" using t by (simp_all add: wf_top_def)
  obtain s where nm: "nm = PStr s" using wn by (cases nm) (simp_all add: wf_string_def)
  have ws: "wf_string (PStr s)" using wn nm by simp
  have eb: "encode_bytes t = le_bytes 1 (ID k) @ str_bytes s @ tag_bytes t"
    using encode_top[OF ws, of k p None] wf_tag_encode[OF wt] t nm by (simp add: encode_bytes_eq)
  have rem0: "remaining r = le_bytes 1 (ID k) @ (str_bytes s @ tag_bytes t @ rest)"
    using assms(2) eb by simp
  have p1: "pop 1 r = Inr (ID k, advance 1 r)"
    using rem0 by (intro pop_exact) (simp_all add: in_range_ID)
  have rem1: "remaining (advance 1 r) = str_bytes s @ (tag_bytes t @ rest)"
    using rem0 by (simp add: remaining_advance)
  have p2: "popString (advance 1 r) = Inr (s, advance (1 + length (str_bytes s)) r)"
    using popString_ok[OF ws rem1] by simp
  let ?r2 = "advance (1 + length (str_bytes s)) r"
  have rem2: "remaining ?r2 = tag_bytes t @ rest"
    using rem0 by (simp add: remaining_advance)
  have len2: "length (remaining ?r2) < f"
    using assms(3) rem0 by (simp add: length_remaining_advance)
  have d: "tag_decode f k ?r2 = Some (Inr (p, advance (length (tag_bytes t)) ?r2))"
    using tag_decode_roundtrip[OF wt rem2 len2] t by simp
  have sz: "1 + length (str_bytes s) + length (tag_bytes t) = length (encode_bytes t)"
    using eb by simp
  show ?thesis
    using p1 py_getitem_tags_ID[of k] p2 d
    by (simp add: decode_fuel_def t nm sz[unfolded t nm, symmetric] add.assoc)
qed

lemma decode_roundtrip:
  assumes "wf_top t" "remaining r = encode_bytes t @ rest"
  shows "decode r = Some (Inr (t, advance (length (encode_bytes t)) r))"
  unfolding decode_def
  by (rule decode_fuel_roundtrip[OF assms]) (simp add: remaining_def)

lemma encode_wf_top: "wf_top t \<Longrightarrow> encode t None = Inr (encode_bytes t)"
proof -
  assume a: "wf_top t"
  obtain k nm p where t: "t = TAG k nm p" by (cases t)
  from a have wn: "wf_string nm" and wt: "wf_tag t" using t by (simp_all add: wf_top_def)
  obtain s where nm: "nm = PStr s" using wn by (cases nm) (simp_all add: wf_string_def)
  have ws: "wf_string (PStr s)" using wn nm by simp
  show ?thesis
    using encode_top[OF ws, of k p None] wf_tag_encode[OF wt] t nm by (simp add: encode_bytes_def)
qed

subsection \<open>Decoding a truncated tag\<close>

lemma prefix_split:
  assumes "a @ b = p @ q" "q \<noteq> []"
  obtains (short) q' where "a = p @ q'" "q' \<noteq> []"
        | (long) p' where "p = a @ p'" "b = p' @ q"
  using assms by (auto simp: append_eq_append_conv2) (metis append.right_neutral)+

lemma pop_1_short:
  assumes "[b] = remaining r @ q" "q \<noteq> []"
  shows "pop 1 r = Inl StructError"
proof -
  have "remaining r = []" using assms by (cases "remaining r") auto
  then show ?thesis by (simp add: pop_short)
qed

lemma bytes_loop_short:
  assumes "wf_items TAG_Byte i xs" "concat (map tag_bytes xs) = remaining r @ q" "q \<noteq> []"
  shows "bytes_loop i (length xs) r acc = Inl StructError"
  using assms
proof (induction xs arbitrary: i r acc)
  case Nil
  then show ?case by simp
next
  case (Cons x xs)
  from Cons.prems(1) have wx: "wf_tag x" "cls x = TAG_Byte" "name x = PInt i"
    and wxs: "wf_items TAG_Byte (i + 1) xs" by simp_all
  from wf_scalar[OF wx(1,2), of 1] obtain v where
    v: "payload x = PInt v" "in_range 1 v" "tag_bytes x = le_bytes 1 v" by auto
  have eq: "tag_bytes x @ concat (map tag_bytes xs) = remaining r @ q"
    using Cons.prems(2) by simp
  from eq Cons.prems(3) show ?case
  proof (cases rule: prefix_split)
    case (short q')
    then have "pop 1 r = Inl StructError"
      using v(3) by (intro pop_1_short[where q = q' and b = "word_of_int v"]) simp_all
    then show ?thesis by simp
  next
    case (long p')
    have p: "pop 1 r = Inr (v, advance 1 r)"
      using long(1) v by (intro pop_exact[where rest = p']) simp_all
    have rem: "concat (map tag_bytes xs) = remaining (advance 1 r) @ q"
      using long v by (simp add: remaining_advance)
    show ?thesis
      using p Cons.IH[OF wxs rem Cons.prems(3)] by simp
  qed
qed

lemma list_loop_short:
  assumes IH: "\<And>x r q f. x \<in> set xs \<Longrightarrow> tag_bytes x = remaining r @ q \<Longrightarrow> q \<noteq> [] \<Longrightarrow>
                  length (remaining r) < f \<Longrightarrow> tag_decode f (cls x) r = Some (Inl StructError)"
    and "wf_items k i xs" "py_getitem tags itemID = Inr (Some k)"
    and "concat (map tag_bytes xs) = remaining r @ q" "q \<noteq> []" "length (remaining r) < f"
  shows "list_loop f itemID i (length xs) r acc = Some (Inl StructError)"
  using assms
proof (induction xs arbitrary: i r acc)
  case Nil
  then show ?case by simp
next
  case (Cons x xs)
  from Cons.prems(2) have wx: "wf_tag x" "cls x = k" "name x = PInt i"
    and wxs: "wf_items k (i + 1) xs" by simp_all
  have eq: "tag_bytes x @ concat (map tag_bytes xs) = remaining r @ q"
    using Cons.prems(4) by simp
  from eq Cons.prems(5) show ?case
  proof (cases rule: prefix_split)
    case (short q')
    have "tag_decode f k r = Some (Inl StructError)"
      using Cons.prems(1)[of x r q' f] short Cons.prems(6) wx by simp
    then show ?thesis using Cons.prems(3) by simp
  next
    case (long p')
    have d: "tag_decode f k r = Some (Inr (payload x, advance (length (tag_bytes x)) r))"
      using tag_decode_roundtrip[OF wx(1) long(1) Cons.prems(6)] wx by simp
    have rem: "concat (map tag_bytes xs) = remaining (advance (length (tag_bytes x)) r) @ q"
      using long by (simp add: remaining_advance)
    have len: "length (remaining (advance (length (tag_bytes x)) r)) < f"
      using Cons.prems(6) by (simp add: length_remaining_advance)
    have "list_loop f itemID (i + 1) (length xs) (advance (length (tag_bytes x)) r)
            (acc @ [TAG k (PInt i) (payload x)]) = Some (Inl StructError)"
      using Cons.prems(1) by (intro Cons.IH[OF _ wxs Cons.prems(3) rem Cons.prems(5) len]) simp_all
    then show ?thesis using d Cons.prems(3) by simp
  qed
qed

text \<open>The three ways the header of a truncated child can be read.\<close>

lemma header_short:
  assumes "wf_string (PStr s)" "wf_tag (TAG k (PStr s) p)"
    and "encode_bytes (TAG k (PStr s) p) = remaining r @ q" "q \<noteq> []"
  shows "pop 1 r = Inl StructError
       \<or> pop 1 r = Inr (ID k, advance 1 r) \<and> popString (advance 1 r) = Inl StructError
       \<or> pop 1 r = Inr (ID k, advance 1 r)
          \<and> popString (advance 1 r) = Inr (s, advance (1 + length (str_bytes s)) r)
          \<and> tag_bytes (TAG k (PStr s) p) = remaining (advance (1 + length (str_bytes s)) r) @ q
          \<and> 3 + length s \<le> length (remaining r)"
proof -
  let ?t = "TAG k (PStr s) p"
  have eb: "encode_bytes ?t = le_bytes 1 (ID k) @ str_bytes s @ tag_bytes ?t"
    using encode_top[OF assms(1), of k p None] wf_tag_encode[OF assms(2)]
    by (simp add: encode_bytes_eq)
  have eq: "le_bytes 1 (ID k) @ (str_bytes s @ tag_bytes ?t) = remaining r @ q"
    using assms(3) eb by simp
  from eq assms(4) show ?thesis
  proof (cases rule: prefix_split)
    case (short q')
    then have "pop 1 r = Inl StructError"
      by (intro pop_1_short[where q = q' and b = "word_of_int (ID k)"]) simp_all
    then show ?thesis by simp
  next
    case (long p')
    have p1: "pop 1 r = Inr (ID k, advance 1 r)"
      using long(1) by (intro pop_exact[where rest = p']) (simp_all add: in_range_ID)
    have rem1: "remaining (advance 1 r) = p'"
      using long(1) by (simp add: remaining_advance)
    from long(2) assms(4) show ?thesis
    proof (cases rule: prefix_split)
      case (short q'')
      then show ?thesis using p1 popString_short[OF assms(1), of "advance 1 r" q''] rem1 by simp
    next
      case (long p'')
      have p2: "popString (advance 1 r) = Inr (s, advance (1 + length (str_bytes s)) r)"
        using popString_ok[OF assms(1), of "advance 1 r" p''] rem1 long(1) by simp
      have "remaining (advance (length (str_bytes s)) (advance 1 r)) = p''"
        by (subst remaining_advance, subst rem1, simp add: long(1))
      then have "remaining (advance (1 + length (str_bytes s)) r) = p''" by simp
      moreover have "3 + length s \<le> length (remaining r)"
        using \<open>remaining r = le_bytes 1 (ID k) @ p'\<close> long(1) by simp
      ultimately show ?thesis using p1 p2 long(2) by simp
    qed
  qed
qed

lemma compound_loop_short:
  assumes IH: "\<And>x r q f. x \<in> set xs \<Longrightarrow> tag_bytes x = remaining r @ q \<Longrightarrow> q \<noteq> [] \<Longrightarrow>
                  length (remaining r) < f \<Longrightarrow> tag_decode f (cls x) r = Some (Inl StructError)"
    and "wf_children xs"
    and "concat (map encode_bytes xs) @ [0] = remaining r @ q" "q \<noteq> []"
        "length (remaining r) \<le> f"
  shows "(case pop 1 r of Inl e \<Rightarrow> Some (Inl e)
          | Inr (tagID, r1) \<Rightarrow> compound_loop f tagID r1 acc) = Some (Inl StructError)"
  using assms
proof (induction xs arbitrary: r acc f)
  case Nil
  then have "pop 1 r = Inl StructError"
    by (intro pop_1_short[where q = q and b = 0]) simp_all
  then show ?case by simp
next
  case (Cons x xs)
  obtain k nm p where x: "x = TAG k nm p" by (cases x)
  from Cons.prems(2) have wn: "wf_string nm" and wx: "wf_tag x" and wxs: "wf_children xs"
    using x by simp_all
  obtain s where nm: "nm = PStr s" using wn by (cases nm) (simp_all add: wf_string_def)
  have ws: "wf_string (PStr s)" using wn nm by simp
  have wx': "wf_tag (TAG k (PStr s) p)" using wx x nm by simp
  have eq: "encode_bytes x @ (concat (map encode_bytes xs) @ [0]) = remaining r @ q"
    using Cons.prems(3) by simp
  from eq Cons.prems(4) show ?case
  proof (cases rule: prefix_split)
    case (short q')
    from header_short[OF ws wx' short(1)[unfolded x nm] short(2)]
    consider (a) "pop 1 r = Inl StructError"
      | (b) "pop 1 r = Inr (ID k, advance 1 r)" "popString (advance 1 r) = Inl StructError"
      | (c) "pop 1 r = Inr (ID k, advance 1 r)"
          "popString (advance 1 r) = Inr (s, advance (1 + length (str_bytes s)) r)"
          "tag_bytes (TAG k (PStr s) p) = remaining (advance (1 + length (str_bytes s)) r) @ q'"
          "3 + length s \<le> length (remaining r)"
      by blast
    then show ?thesis
    proof cases
      case a
      then show ?thesis by simp
    next
      case b
      then have "0 < length (remaining r)" by (auto simp: pop_def remaining_def split: if_splits)
      then obtain f' where f: "f = Suc f'" using Cons.prems(5) by (cases f) auto
      show ?thesis using b f ID_nonzero[of k] py_getitem_tags_ID[of k] by simp
    next
      case c
      then obtain f' where f: "f = Suc f'" using Cons.prems(5) by (cases f) auto
      have len: "length (remaining (advance (1 + length (str_bytes s)) r)) < f'"
        using Cons.prems(5) f c(4) by (simp add: length_remaining_advance)
      have "tag_decode f' k (advance (1 + length (str_bytes s)) r) = Some (Inl StructError)"
        using Cons.prems(1)[of x _ q' f'] c(3) short(2) len x nm by simp
      then show ?thesis using c f ID_nonzero[of k] py_getitem_tags_ID[of k] by simp
    qed
  next
    case (long p')
    have eb: "encode_bytes x = le_bytes 1 (ID k) @ str_bytes s @ tag_bytes x"
      using encode_top[OF ws, of k p None] wf_tag_encode[OF wx] x nm by (simp add: encode_bytes_eq)
    have rem0: "remaining r = le_bytes 1 (ID k) @ (str_bytes s @ tag_bytes x @ p')"
      using long(1) eb by simp
    obtain f' where f: "f = Suc f'" using rem0 Cons.prems(5) by (cases f) auto
    let ?r3 = "advance (length (encode_bytes x)) r"
    have rt: "(case pop 1 r of Inl e \<Rightarrow> Some (Inl e)
          | Inr (tagID, r1) \<Rightarrow> compound_loop f tagID r1 acc)
         = (case pop 1 ?r3 of Inl e \<Rightarrow> Some (Inl e)
          | Inr (tagID, r1) \<Rightarrow> compound_loop f' tagID r1 (acc @ [TAG k (PStr s) p]))"
    proof -
      have p1: "pop 1 r = Inr (ID k, advance 1 r)"
        using rem0 by (intro pop_exact) (simp_all add: in_range_ID)
      have rem1: "remaining (advance 1 r) = str_bytes s @ (tag_bytes x @ p')"
        using rem0 by (simp add: remaining_advance)
      have p2: "popString (advance 1 r) = Inr (s, advance (1 + length (str_bytes s)) r)"
        using popString_ok[OF ws rem1] by simp
      let ?r2 = "advance (1 + length (str_bytes s)) r"
      have rem2: "remaining ?r2 = tag_bytes x @ p'"
        using rem0 by (simp add: remaining_advance)
      have len2: "length (remaining ?r2) < f'"
        using Cons.prems(5) f rem0 by (simp add: length_remaining_advance)
      have d: "tag_decode f' k ?r2 = Some (Inr (p, advance (length (tag_bytes x)) ?r2))"
        using tag_decode_roundtrip[OF wx rem2 len2] x by simp
      have sz: "1 + length (str_bytes s) + length (tag_bytes x) = length (encode_bytes x)"
        using eb by simp
      show ?thesis
        using p1 f ID_nonzero[of k] py_getitem_tags_ID[of k] p2 d
        by (simp add: x nm sz[unfolded x nm, symmetric] add.assoc)
    qed
    have rem: "concat (map encode_bytes xs) @ [0] = remaining ?r3 @ q"
      using long by (simp add: remaining_advance)
    have len: "length (remaining ?r3) \<le> f'"
      using Cons.prems(5) f rem0 eb by (simp add: length_remaining_advance)
    have "(case pop 1 ?r3 of Inl e \<Rightarrow> Some (Inl e)
          | Inr (tagID, r1) \<Rightarrow> compound_loop f' tagID r1 (acc @ [TAG k (PStr s) p]))
          = Some (Inl StructError)"
      using Cons.prems(1) by (intro Cons.IH[OF _ wxs rem Cons.prems(4) len]) simp_all
    then show ?thesis using rt by simp
  qed
qed

lemma short_length: "a = p @ q \<Longrightarrow> q \<noteq> [] \<Longrightarrow> length p < length a"
  by auto

lemma tag_decode_short:
  "wf_tag t \<Longrightarrow> tag_bytes t = remaining r @ q \<Longrightarrow> q \<noteq> [] \<Longrightarrow> length (remaining r) < f \<Longrightarrow>
   tag_decode f (cls t) r = Some (Inl StructError)"
proof (induction t arbitrary: r q f rule: tag_induct_set)
  case (TAG k n p)
  note wf = TAG.prems(1) and eq = TAG.prems(2) and q = TAG.prems(3) and len = TAG.prems(4)
  have scalar: "pop sz r = Inl StructError"
    if "k = TAG_Byte \<and> sz = 1 \<or> k = TAG_Short \<and> sz = 2 \<or> k = TAG_Int \<and> sz = 4
         \<or> k = TAG_Long \<and> sz = 8" for sz :: nat
  proof -
    from wf_scalar[OF wf _ that] obtain v where
      v: "tag_bytes (TAG k n p) = le_bytes sz v" by auto
    have "length (remaining r) < sz"
      using short_length[OF eq q] v by simp
    moreover have "fmt sz = Inr ()" using that by auto
    ultimately show ?thesis by (simp add: pop_short)
  qed
  show ?case
  proof (cases k)
    case TAG_Byte
    then show ?thesis using scalar[of 1] by simp
  next
    case TAG_Short
    then show ?thesis using scalar[of 2] by simp
  next
    case TAG_Int
    then show ?thesis using scalar[of 4] by simp
  next
    case TAG_Long
    then show ?thesis using scalar[of 8] by simp
  next
    case TAG_String
    then obtain s where s: "p = PStr s" "wf_string (PStr s)"
      using wf wf_String_payload by blast
    have tb: "tag_bytes (TAG k n p) = str_bytes s"
      using s TAG_String by (simp add: tag_bytes_def putString_ok)
    show ?thesis
      using popString_short[OF s(2), of r q] eq q tb TAG_String by simp
  next
    case TAG_Byte_Array
    then obtain xs where xs: "p = PList xs" "length xs < 2 ^ 31" "wf_items TAG_Byte 0 xs"
      using wf wf_Byte_Array_payload by blast
    have ok: "tag_encode x [] = Inr (tag_bytes x)" if "x \<in> set xs" for x
      using wf_items_set[OF xs(3) that] wf_tag_encode by blast
    have tb: "tag_bytes (TAG k n p) = le_bytes 4 (int (length xs)) @ concat (map tag_bytes xs)"
      using tag_encode_Byte_Array[OF ok xs(2), of n "[]"] xs(1) TAG_Byte_Array
      by (simp add: tag_bytes_eq)
    from eq[unfolded tb] q show ?thesis
    proof (cases rule: prefix_split)
      case (short q')
      have "length (remaining r) < 4"
        using short_length[OF short] by simp
      then show ?thesis using TAG_Byte_Array by (simp add: pop_short)
    next
      case (long p')
      have p4: "pop 4 r = Inr (int (length xs), advance 4 r)"
        using long(1) xs(2) by (intro pop_exact[where rest = p']) (simp_all add: in_range_count)
      have rem1: "concat (map tag_bytes xs) = remaining (advance 4 r) @ q"
        using long by (simp add: remaining_advance)
      show ?thesis
        using p4 bytes_loop_short[OF xs(3) rem1 q, of "[]"] TAG_Byte_Array by simp
    qed
  next
    case TAG_List
    then obtain xs where xs: "p = PList xs" "length xs < 2 ^ 31"
        "xs = [] \<or> wf_items (cls (hd xs)) 0 xs"
      using wf wf_List_payload by blast
    have wfx: "wf_tag x" if "x \<in> set xs" for x
      using xs(3) that wf_items_set by (cases xs) auto
    have ok: "tag_encode x [] = Inr (tag_bytes x)" if "x \<in> set xs" for x
      using wfx[OF that] wf_tag_encode by blast
    have tb: "tag_bytes (TAG k n p) = le_bytes 1 (item_kind xs) @ (le_bytes 4 (int (length xs))
                @ concat (map tag_bytes xs))"
      using tag_encode_List[OF ok xs(2), of n "[]"] xs(1) TAG_List
      by (simp add: tag_bytes_eq)
    have ir: "in_range 1 (item_kind xs)"
      by (cases xs) (simp_all add: item_kind_def in_range_ID, simp add: in_range_def)
    obtain f' where f: "f = Suc f'" using len by (cases f) auto
    from eq[unfolded tb] q show ?thesis
    proof (cases rule: prefix_split)
      case (short q')
      then have "pop 1 r = Inl StructError"
        by (intro pop_1_short[where q = q' and b = "word_of_int (item_kind xs)"]) simp_all
      then show ?thesis using TAG_List f by simp
    next
      case (long p')
      have p1: "pop 1 r = Inr (item_kind xs, advance 1 r)"
        using long(1) ir by (intro pop_exact[where rest = p']) simp_all
      have rem1: "remaining (advance 1 r) = p'"
        using long(1) by (simp add: remaining_advance)
      note l1 = long(1)
      from long(2) q show ?thesis
      proof (cases rule: prefix_split)
        case (short q'')
        have "length (remaining (advance 1 r)) < 4"
          using short_length[OF short] rem1 by simp
        then have "pop 4 (advance 1 r) = Inl StructError" by (simp add: pop_short)
        then show ?thesis using p1 TAG_List f by simp
      next
        case (long p'')
        have p4: "pop 4 (advance 1 r) = Inr (int (length xs), advance 5 r)"
          using pop_exact[OF _ _ in_range_count[OF xs(2)], of "advance 1 r" p''] rem1 long(1)
          by simp
        have "remaining (advance 4 (advance 1 r)) = p''"
          by (subst remaining_advance, subst rem1, simp add: long(1))
        then have rem2: "concat (map tag_bytes xs) = remaining (advance 5 r) @ q"
          using long(2) by simp
        have len2: "length (remaining (advance 5 r)) < f'"
          using len f l1 long(1) by (simp add: length_remaining_advance)
        have xne: "xs \<noteq> []" using rem2 q by auto
        then obtain y ys where yys: "xs = y # ys" by (cases xs) auto
        then have wi: "wf_items (cls y) 0 xs" using xs(3) by simp
        have gi: "py_getitem tags (item_kind xs) = Inr (Some (cls y))"
          using yys by (simp add: item_kind_def py_getitem_tags_ID)
        have "list_loop f' (item_kind xs) 0 (length xs) (advance 5 r) [] = Some (Inl StructError)"
          using TAG.IH[OF xs(1)] wfx
          by (intro list_loop_short[OF _ wi gi rem2 q len2]) blast
        then show ?thesis using p1 p4 f TAG_List by simp
      qed
    qed
  next
    case TAG_Compound
    then obtain xs where xs: "p = PList xs" "wf_children xs"
      using wf wf_Compound_payload by blast
    have ok: "wf_string (name x) \<and> tag_encode x [] = Inr (tag_bytes x)" if "x \<in> set xs" for x
      using wf_children_set[OF xs(2) that] wf_tag_encode by blast
    have tb: "tag_bytes (TAG k n p) = concat (map encode_bytes xs) @ [0]"
      using tag_encode_Compound[OF ok, of xs n "[]"] xs(1) TAG_Compound
      by (simp add: tag_bytes_eq)
    obtain f' where f: "f = Suc f'" using len by (cases f) auto
    have len0: "length (remaining r) \<le> f'" using len f by simp
    have "(case pop 1 r of Inl e \<Rightarrow> Some (Inl e)
          | Inr (tagID, r1) \<Rightarrow> compound_loop f' tagID r1 []) = Some (Inl StructError)"
      using TAG.IH[OF xs(1)] wf_children_set[OF xs(2)]
      by (intro compound_loop_short[OF _ xs(2) eq[unfolded tb] q len0]) blast
    then show ?thesis
      using f TAG_Compound by (auto split: sum.splits)
  qed
qed

lemma decode_fuel_short:
  assumes "wf_top t" "encode_bytes t = remaining r @ q" "q \<noteq> []" "length (remaining r) \<le> f"
  shows "decode_fuel f r = Some (Inl StructError)"
proof -
  obtain k nm p where t: "t = TAG k nm p" by (cases t)
  from assms(1) have wn: "wf_string nm" and wt: "wf_tag t" using t by (simp_all add: wf_top_def)
  obtain s where nm: "nm = PStr s" using wn by (cases nm) (simp_all add: wf_string_def)
  have ws: "wf_string (PStr s)" using wn nm by simp
  have wt': "wf_tag (TAG k (PStr s) p)" using wt t nm by simp
  from header_short[OF ws wt' assms(2)[unfolded t nm] assms(3)]
  consider (a) "pop 1 r = Inl StructError"
    | (b) "pop 1 r = Inr (ID k, advance 1 r)" "popString (advance 1 r) = Inl StructError"
    | (c) "pop 1 r = Inr (ID k, advance 1 r)"
        "popString (advance 1 r) = Inr (s, advance (1 + length (str_bytes s)) r)"
        "tag_bytes (TAG k (PStr s) p) = remaining (advance (1 + length (str_bytes s)) r) @ q"
        "3 + length s \<le> length (remaining r)"
    by blast
  then show ?thesis
  proof cases
    case a
    then show ?thesis by (simp add: decode_fuel_def)
  next
    case b
    then show ?thesis using py_getitem_tags_ID[of k] by (simp add: decode_fuel_def)
  next
    case c
    have len: "length (remaining (advance (1 + length (str_bytes s)) r)) < f"
      using assms(4) c(4) by (simp add: length_remaining_advance)
    have "tag_decode f k (advance (1 + length (str_bytes s)) r) = Some (Inl StructError)"
      using tag_decode_short[OF wt' c(3) assms(3) len] by simp
    then show ?thesis using c py_getitem_tags_ID[of k] by (simp add: decode_fuel_def)
  qed
qed

lemma decode_short:
  assumes "wf_top t" "encode_bytes t = remaining r @ q" "q \<noteq> []"
  shows "decode r = Some (Inl StructError)"
  unfolding decode_def
  by (rule decode_fuel_short[OF assms]) (simp add: remaining_def)

lemma encode_bytes_nonempty: "wf_top t \<Longrightarrow> encode_bytes t \<noteq> []"
proof -
  assume a: "wf_top t"
  obtain k nm p where t: "t = TAG k nm p" by (cases t)
  from a have wn: "wf_string nm" and wt: "wf_tag t" using t by (simp_all add: wf_top_def)
  obtain s where nm: "nm = PStr s" using wn by (cases nm) (simp_all add: wf_string_def)
  have ws: "wf_string (PStr s)" using wn nm by simp
  show ?thesis
    using encode_top[OF ws, of k p None] wf_tag_encode[OF wt] t nm by (simp add: encode_bytes_eq)
qed

lemma tag_truncated:
  assumes "wf_top t"
  shows "decode \<lparr>data = pre @ butlast (encode_bytes t), idx = length pre\<rparr> = Some (Inl StructError)"
proof -
  let ?r = "\<lparr>data = pre @ butlast (encode_bytes t), idx = length pre\<rparr>"
  have eq: "encode_bytes t = remaining ?r @ [last (encode_bytes t)]"
    using encode_bytes_nonempty[OF assms] by (simp add: remaining_def)
  show ?thesis by (rule decode_short[OF assms eq]) simp
qed

subsection \<open>The decoder always returns\<close>

text \<open>
  With a depth bound above the number of bytes left, the decoders never reach
  the bound: every level of nesting and every child of a compound consumes at
  least one byte.
\<close>

lemma returns_within_simps [simp]:
  "returns_within r None = False"
  "returns_within r (Some (Inl e)) = True"
  "returns_within r (Some (Inr (p, r'))) = (length (remaining r') \<le> length (remaining r))"
  by (simp_all add: returns_within_def)

lemma pop_left:
  assumes "pop sz r = Inr (v, r1)"
  shows "length (remaining r1) + sz = length (remaining r)"
  using assms by (auto simp: pop_def remaining_def Let_def split: sum.splits if_splits)

lemma pop_pos:
  assumes "pop sz r = Inr (v, r1)"
  shows "0 < sz"
  using assms by (cases "sz = 0") (auto simp: pop_def fmt_def split: sum.splits)

lemma popString_left:
  assumes "popString r = Inr (s, r1)"
  shows "length (remaining r1) + 2 \<le> length (remaining r)"
proof -
  from assms obtain sz r0 where p: "pop 2 r = Inr (sz, r0)"
    by (auto simp: popString_def split: sum.splits)
  from assms p have "length (remaining r1) \<le> length (remaining r0)"
    by (auto simp: popString_def remaining_def Let_def split: if_splits option.splits)
  with pop_left[OF p] show ?thesis by simp
qed

lemma bytes_loop_left:
  "bytes_loop i m r acc = Inr (xs, r1) \<Longrightarrow> length (remaining r1) \<le> length (remaining r)"
proof (induction m arbitrary: i r acc)
  case 0
  then show ?case by simp
next
  case (Suc m)
  from Suc.prems obtain v r0 where p: "pop 1 r = Inr (v, r0)"
    and b: "bytes_loop (i + 1) m r0 (acc @ [TAG TAG_Byte (PInt i) (PInt v)]) = Inr (xs, r1)"
    by (auto split: sum.splits)
  from Suc.IH[OF b] pop_left[OF p] show ?case by simp
qed

lemma returns_within_cases:
  assumes "returns_within r x"
  obtains (err) e where "x = Some (Inl e)"
        | (ok) p r' where "x = Some (Inr (p, r'))" "length (remaining r') \<le> length (remaining r)"
proof (cases x)
  case None
  then show ?thesis using assms by simp
next
  case (Some res)
  show ?thesis
  proof (cases res)
    case (Inl e)
    then show ?thesis using Some err by simp
  next
    case (Inr a)
    obtain p r' where a: "a = (p, r')" by (cases a)
    show ?thesis using Some Inr a ok[of p r'] assms by simp
  qed
qed

lemma returns_within_Some: "returns_within r x \<Longrightarrow> \<exists>y. x = Some y"
  by (cases x) simp_all

lemma decode_loops_return:
  "length (remaining r) < f \<Longrightarrow> returns_within r (tag_decode f k r)"
  "length (remaining r) < f \<Longrightarrow> returns_within r (list_loop f itemID i m r acc)"
  "length (remaining r) < f \<Longrightarrow> returns_within r (compound_loop f tagID r acc)"
proof (induction f k r and f itemID i m r acc and f tagID r acc
       rule: tag_decode_list_loop_compound_loop.induct)
  case (1 f r)
  then show ?case by (auto split: sum.splits dest: pop_left)
next
  case (2 f r)
  then show ?case by (auto split: sum.splits dest: pop_left)
next
  case (3 f r)
  then show ?case by (auto split: sum.splits dest: pop_left)
next
  case (4 f r)
  then show ?case by (auto split: sum.splits dest: pop_left)
next
  case (5 f r)
  then show ?case by (auto split: sum.splits dest: popString_left)
next
  case (6 f r)
  show ?case
  proof (cases "pop 4 r")
    case (Inl e)
    then show ?thesis by simp
  next
    case (Inr a)
    then obtain sz r1 where p1: "pop 4 r = Inr (sz, r1)" by (cases a) simp
    note l1 = pop_left[OF p1]
    show ?thesis
    proof (cases "bytes_loop 0 (nat sz) r1 []")
      case (Inl e)
      then show ?thesis using p1 by simp
    next
      case (Inr b)
      then obtain xs r2 where b: "bytes_loop 0 (nat sz) r1 [] = Inr (xs, r2)" by (cases b) simp
      from bytes_loop_left[OF b] l1 show ?thesis using p1 b by simp
    qed
  qed
next
  case (7 r)
  then show ?case by simp
next
  case (8 f r)
  show ?case
  proof (cases "pop 1 r")
    case (Inl e)
    then show ?thesis by simp
  next
    case (Inr a)
    then obtain itemID r1 where p1: "pop 1 r = Inr (itemID, r1)" by (cases a) simp
    note l1 = pop_left[OF p1]
    show ?thesis
    proof (cases "pop 4 r1")
      case (Inl e)
      then show ?thesis using p1 by simp
    next
      case (Inr b)
      then obtain sz r2 where p2: "pop 4 r1 = Inr (sz, r2)" by (cases b) simp
      note l2 = pop_left[OF p2]
      have "length (remaining r2) < f" using l1 l2 "8.prems" by simp
      from "8.IH"[OF p1 refl p2 refl this]
      have "returns_within r2 (list_loop f itemID 0 (nat sz) r2 [])" .
      then show ?thesis using p1 p2 l1 l2
        by (cases rule: returns_within_cases) simp_all
    qed
  qed
next
  case (9 r)
  then show ?case by simp
next
  case (10 f r)
  show ?case
  proof (cases "pop 1 r")
    case (Inl e)
    then show ?thesis by simp
  next
    case (Inr a)
    then obtain tagID r1 where p1: "pop 1 r = Inr (tagID, r1)" by (cases a) simp
    note l1 = pop_left[OF p1]
    have "length (remaining r1) < f" using l1 "10.prems" by simp
    from "10.IH"[OF p1 refl this]
    have "returns_within r1 (compound_loop f tagID r1 [])" .
    then show ?thesis using p1 l1 by (cases rule: returns_within_cases) simp_all
  qed
next
  case (11 f itemID i r acc)
  then show ?case by simp
next
  case (12 f itemID i m r acc)
  show ?case
  proof (cases "py_getitem tags itemID")
    case (Inl e)
    then show ?thesis by simp
  next
    case (Inr ko)
    show ?thesis
    proof (cases ko)
      case None
      then show ?thesis using Inr by simp
    next
      case (Some k)
      note g = Inr[unfolded Some]
      from "12.IH"(1)[OF g refl "12.prems"]
      have t: "returns_within r (tag_decode f k r)" .
      show ?thesis
      proof (cases "tag_decode f k r")
        case None
        then show ?thesis using t by simp
      next
        case (Some res)
        show ?thesis
        proof (cases res)
          case (Inl e)
          then show ?thesis using g Some by simp
        next
          case (Inr b)
          then obtain p r1 where d: "tag_decode f k r = Some (Inr (p, r1))"
            using Some by (cases b) simp
          from t d have l: "length (remaining r1) \<le> length (remaining r)" by simp
          then have "length (remaining r1) < f" using "12.prems" by simp
          from "12.IH"(2)[OF g refl d refl refl this]
          have "returns_within r1 (list_loop f itemID (i + 1) m r1 (acc @ [TAG k (PInt i) p]))" .
          then show ?thesis using g d l by (cases rule: returns_within_cases) simp_all
        qed
      qed
    qed
  qed
next
  case (13 tagID r acc)
  then show ?case by simp
next
  case (14 f tagID r acc)
  show ?case
  proof (cases "tagID = 0")
    case True
    then show ?thesis by simp
  next
    case nz: False
    show ?thesis
    proof (cases "py_getitem tags tagID")
      case (Inl e)
      then show ?thesis using nz by simp
    next
      case (Inr ko)
      show ?thesis
      proof (cases ko)
        case None
        then show ?thesis using Inr nz by simp
      next
        case (Some k)
        note g = Inr[unfolded Some]
        show ?thesis
        proof (cases "popString r")
          case (Inl e)
          then show ?thesis using g nz by simp
        next
          case (Inr a)
          then obtain nm r1 where ps: "popString r = Inr (nm, r1)" by (cases a) simp
          note l1 = popString_left[OF ps]
          have f1: "length (remaining r1) < f" using l1 "14.prems" by simp
          from "14.IH"(1)[OF nz g refl ps refl f1]
          have t: "returns_within r1 (tag_decode f k r1)" .
          show ?thesis
          proof (cases "tag_decode f k r1")
            case None
            then show ?thesis using t by simp
          next
            case (Some res)
            show ?thesis
            proof (cases res)
              case (Inl e)
              then show ?thesis using g nz ps Some by simp
            next
              case (Inr b)
              then obtain p r2 where d: "tag_decode f k r1 = Some (Inr (p, r2))"
                using Some by (cases b) simp
              from t d have l2: "length (remaining r2) \<le> length (remaining r1)" by simp
              show ?thesis
              proof (cases "pop 1 r2")
                case (Inl e)
                then show ?thesis using g nz ps d by simp
              next
                case (Inr c)
                then obtain tagID' r3 where p3: "pop 1 r2 = Inr (tagID', r3)" by (cases c) simp
                note l3 = pop_left[OF p3]
                have "length (remaining r3) < f" using l1 l2 l3 "14.prems" by simp
                from "14.IH"(2)[OF nz g refl ps refl d refl refl p3 refl this]
                have "returns_within r3 (compound_loop f tagID' r3 (acc @ [TAG k (PStr nm) p]))" .
                then show ?thesis using g nz ps d p3 l1 l2 l3
                  by (cases rule: returns_within_cases) simp_all
              qed
            qed
          qed
        qed
      qed
    qed
  qed
qed

lemma decode_total: "\<exists>res. decode r = Some res"
proof (cases "pop 1 r")
  case (Inl e)
  then show ?thesis by (simp add: decode_def decode_fuel_def)
next
  case (Inr a)
  then obtain tagID r1 where p1: "pop 1 r = Inr (tagID, r1)" by (cases a) simp
  note l1 = pop_left[OF p1]
  have le: "length (remaining r) \<le> length (data r)" by (simp add: remaining_def)
  show ?thesis
  proof (cases "py_getitem tags tagID")
    case (Inl e)
    then show ?thesis using p1 by (simp add: decode_def decode_fuel_def)
  next
    case (Inr ko)
    show ?thesis
    proof (cases ko)
      case None
      then show ?thesis using p1 Inr by (simp add: decode_def decode_fuel_def)
    next
      case (Some k)
      note g = Inr[unfolded Some]
      show ?thesis
      proof (cases "popString r1")
        case (Inl e)
        then show ?thesis using p1 g by (simp add: decode_def decode_fuel_def)
      next
        case (Inr b)
        then obtain nm r2 where ps: "popString r1 = Inr (nm, r2)" by (cases b) simp
        note l2 = popString_left[OF ps]
        have "length (remaining r2) < Suc (length (data r))" using l1 l2 le by simp
        from returns_within_Some[OF decode_loops_return(1)[OF this, of k]]
        obtain y where "tag_decode (Suc (length (data r))) k r2 = Some y" by blast
        then show ?thesis using p1 g ps
          by (auto simp: decode_def decode_fuel_def split: option.splits sum.splits)
      qed
    qed
  qed
qed

subsection \<open>Decoding the first bytes of a buffer\<close>

text \<open>
  The decoders read a buffer from left to right: on the first \<open>n\<close> bytes of a
  buffer they return what they return on the whole buffer as long as they
  stay before the cut, and raise \<^verbatim>\<open>struct.error\<close> at the first read across it.
\<close>

lemma idx_cut [simp]: "idx (cut n r) = idx r"
  by (simp add: cut_def)

lemma data_cut [simp]: "data (cut n r) = take n (data r)"
  by (simp add: cut_def)

lemma pop_idx: "pop sz r = Inr (v, r1) \<Longrightarrow> idx r1 = idx r + sz"
  by (auto simp: pop_def Let_def split: sum.splits if_splits)

lemma pop_cut_same:
  assumes "pop sz r = Inr (v, r1)" "idx r1 \<le> n"
  shows "pop sz (cut n r) = Inr (v, cut n r1)"
proof -
  from assms(1) have f: "fmt sz = Inr ()" and l: "length (take sz (drop (idx r) (data r))) = sz"
    and v: "v = unpack_int (take sz (drop (idx r) (data r)))" and r1: "r1 = r\<lparr>idx := idx r + sz\<rparr>"
    by (auto simp: pop_def Let_def split: sum.splits if_splits)
  have le: "idx r + sz \<le> n" using assms(2) r1 by simp
  have "drop (idx r) (take n (data r)) = take (n - idx r) (drop (idx r) (data r))"
    by (simp add: drop_take)
  then have "take sz (drop (idx r) (take n (data r))) = take sz (drop (idx r) (data r))"
    using le by (simp add: min_def)
  then show ?thesis using f l v r1 by (simp add: pop_def Let_def cut_def)
qed

lemma pop_cut_short:
  assumes "pop sz r = Inr (v, r1)" "n < idx r1"
  shows "pop sz (cut n r) = Inl StructError"
proof -
  from assms(1) have f: "fmt sz = Inr ()" and r1: "r1 = r\<lparr>idx := idx r + sz\<rparr>"
    by (auto simp: pop_def Let_def split: sum.splits if_splits)
  have "0 < sz" by (rule pop_pos[OF assms(1)])
  then have "length (take sz (drop (idx r) (take n (data r)))) < sz"
    using assms(2) r1 by simp
  then show ?thesis using f by (simp add: pop_def Let_def)
qed

lemma popString_idx: "popString r = Inr (s, r1) \<Longrightarrow> idx r \<le> idx r1"
  by (auto simp: popString_def Let_def split: sum.splits if_splits option.splits dest!: pop_idx)

lemma popString_cut_same:
  assumes "popString r = Inr (s, r1)" "idx r1 \<le> n"
  shows "popString (cut n r) = Inr (s, cut n r1)"
proof -
  from assms(1) obtain sz r0 where p: "pop 2 r = Inr (sz, r0)"
    by (auto simp: popString_def split: sum.splits)
  from assms(1) p have nn: "\<not> sz < 0"
    and l: "length (take (nat sz) (drop (idx r0) (data r0))) = nat sz"
    and u: "utf8_decode (take (nat sz) (drop (idx r0) (data r0))) = Some s"
    and r1: "r1 = r0\<lparr>idx := idx r0 + nat sz\<rparr>"
    by (auto simp: popString_def Let_def split: if_splits option.splits)
  have le: "idx r0 + nat sz \<le> n" using assms(2) r1 by simp
  then have "idx r0 \<le> n" by simp
  from pop_cut_same[OF p this] have p': "pop 2 (cut n r) = Inr (sz, cut n r0)" .
  have "drop (idx r0) (take n (data r0)) = take (n - idx r0) (drop (idx r0) (data r0))"
    by (simp add: drop_take)
  then have e: "take (nat sz) (drop (idx r0) (take n (data r0)))
              = take (nat sz) (drop (idx r0) (data r0))"
    using le by (simp add: min_def)
  have c: "cut n r1 = (cut n r0)\<lparr>idx := idx r0 + nat sz\<rparr>"
    using r1 by (simp add: cut_def)
  show ?thesis
    using nn l u le by (simp add: popString_def p' e Let_def c)
qed

lemma popString_cut_short:
  assumes "popString r = Inr (s, r1)" "n < idx r1"
  shows "popString (cut n r) = Inl StructError"
proof -
  from assms(1) obtain sz r0 where p: "pop 2 r = Inr (sz, r0)"
    by (auto simp: popString_def split: sum.splits)
  from assms(1) p have nn: "\<not> sz < 0" and r1: "r1 = r0\<lparr>idx := idx r0 + nat sz\<rparr>"
    by (auto simp: popString_def Let_def split: if_splits option.splits)
  show ?thesis
  proof (cases "idx r0 \<le> n")
    case True
    from pop_cut_same[OF p True] have p': "pop 2 (cut n r) = Inr (sz, cut n r0)" .
    have "length (take (nat sz) (drop (idx r0) (take n (data r0)))) < nat sz"
      using assms(2) r1 True by simp
    then show ?thesis using nn by (simp add: popString_def p' Let_def)
  next
    case False
    then have "n < idx r0" by simp
    from pop_cut_short[OF p this] show ?thesis by (simp add: popString_def)
  qed
qed

lemma bytes_loop_idx:
  "bytes_loop i m r acc = Inr (xs, r1) \<Longrightarrow> idx r \<le> idx r1"
proof (induction m arbitrary: i r acc)
  case 0
  then show ?case by simp
next
  case (Suc m)
  from Suc.prems obtain v r0 where p: "pop 1 r = Inr (v, r0)"
    and b: "bytes_loop (i + 1) m r0 (acc @ [TAG TAG_Byte (PInt i) (PInt v)]) = Inr (xs, r1)"
    by (auto split: sum.splits)
  from Suc.IH[OF b] pop_idx[OF p] show ?case by simp
qed

lemma bytes_loop_cut_same:
  "bytes_loop i m r acc = Inr (xs, r1) \<Longrightarrow> idx r1 \<le> n \<Longrightarrow>
     bytes_loop i m (cut n r) acc = Inr (xs, cut n r1)"
proof (induction m arbitrary: i r acc)
  case 0
  then show ?case by simp
next
  case (Suc m)
  from Suc.prems(1) obtain v r0 where p: "pop 1 r = Inr (v, r0)"
    and b: "bytes_loop (i + 1) m r0 (acc @ [TAG TAG_Byte (PInt i) (PInt v)]) = Inr (xs, r1)"
    by (auto split: sum.splits)
  have "idx r0 \<le> n" using bytes_loop_idx[OF b] Suc.prems(2) by simp
  from pop_cut_same[OF p this] Suc.IH[OF b Suc.prems(2)] show ?case by simp
qed

lemma bytes_loop_cut_short:
  "bytes_loop i m r acc = Inr (xs, r1) \<Longrightarrow> n < idx r1 \<Longrightarrow> idx r \<le> n \<Longrightarrow>
     bytes_loop i m (cut n r) acc = Inl StructError"
proof (induction m arbitrary: i r acc)
  case 0
  then show ?case by simp
next
  case (Suc m)
  from Suc.prems(1) obtain v r0 where p: "pop 1 r = Inr (v, r0)"
    and b: "bytes_loop (i + 1) m r0 (acc @ [TAG TAG_Byte (PInt i) (PInt v)]) = Inr (xs, r1)"
    by (auto split: sum.splits)
  show ?case
  proof (cases "idx r0 \<le> n")
    case True
    from pop_cut_same[OF p True] Suc.IH[OF b Suc.prems(2) True] show ?thesis by simp
  next
    case False
    then have "n < idx r0" by simp
    from pop_cut_short[OF p this] show ?thesis by simp
  qed
qed

lemma pop_cut:
  "pop sz r = Inr (v, r1) \<Longrightarrow>
     pop sz (cut n r) = (if idx r1 \<le> n then Inr (v, cut n r1) else Inl StructError)"
  by (simp add: pop_cut_same pop_cut_short)

lemma popString_cut:
  "popString r = Inr (s, r1) \<Longrightarrow>
     popString (cut n r) = (if idx r1 \<le> n then Inr (s, cut n r1) else Inl StructError)"
  by (simp add: popString_cut_same popString_cut_short)

lemma bytes_loop_cut:
  "bytes_loop i m r acc = Inr (xs, r1) \<Longrightarrow> idx r \<le> n \<Longrightarrow>
     bytes_loop i m (cut n r) acc = (if idx r1 \<le> n then Inr (xs, cut n r1) else Inl StructError)"
  by (simp add: bytes_loop_cut_same bytes_loop_cut_short)

lemma cut_outcome_simps [simp]:
  "cut_outcome n r None x = True"
  "cut_outcome n r (Some (Inl e)) x = True"
  "cut_outcome n r (Some (Inr (p, r1))) x =
     (idx r \<le> idx r1 \<and>
      (if idx r \<le> n
       then x = (if idx r1 \<le> n then Some (Inr (p, cut n r1)) else Some (Inl StructError))
       else True))"
  by (simp_all add: cut_outcome_def)

lemma scalar_cut:
  "cut_outcome n r
     (Some (case pop sz r of Inl e \<Rightarrow> Inl e | Inr (v, r1) \<Rightarrow> Inr (PInt v, r1)))
     (Some (case pop sz (cut n r) of Inl e \<Rightarrow> Inl e | Inr (v, r1) \<Rightarrow> Inr (PInt v, r1)))"
proof (cases "pop sz r")
  case (Inl e)
  then show ?thesis by simp
next
  case (Inr a)
  then obtain v r1 where p: "pop sz r = Inr (v, r1)" by (cases a) simp
  show ?thesis using pop_idx[OF p] by (simp add: p pop_cut[OF p])
qed

lemma decode_loops_cut:
  "cut_outcome n r (tag_decode f k r) (tag_decode f k (cut n r))"
  "cut_outcome n r (list_loop f itemID i m r acc) (list_loop f itemID i m (cut n r) acc)"
  "cut_outcome n r (compound_loop f tagID r acc) (compound_loop f tagID (cut n r) acc)"
proof (induction f k r and f itemID i m r acc and f tagID r acc
       rule: tag_decode_list_loop_compound_loop.induct)
  case (1 f r)
  show ?case unfolding tag_decode.simps by (rule scalar_cut)
next
  case (2 f r)
  show ?case unfolding tag_decode.simps by (rule scalar_cut)
next
  case (3 f r)
  show ?case unfolding tag_decode.simps by (rule scalar_cut)
next
  case (4 f r)
  show ?case unfolding tag_decode.simps by (rule scalar_cut)
next
  case (5 f r)
  show ?case
  proof (cases "popString r")
    case (Inl e)
    then show ?thesis by simp
  next
    case (Inr a)
    then obtain s r1 where p: "popString r = Inr (s, r1)" by (cases a) simp
    show ?thesis  using popString_idx[OF p] p popString_cut[OF p] by simp
  qed
next
  case (6 f r)
  show ?case
  proof (cases "pop 4 r")
    case (Inl e)
    then show ?thesis by simp
  next
    case (Inr a)
    then obtain sz r1 where p1: "pop 4 r = Inr (sz, r1)" by (cases a) simp
    note i1 = pop_idx[OF p1]
    show ?thesis
    proof (cases "bytes_loop 0 (nat sz) r1 []")
      case (Inl e)
      then show ?thesis using p1 by simp
    next
      case (Inr b)
      then obtain xs r2 where b: "bytes_loop 0 (nat sz) r1 [] = Inr (xs, r2)" by (cases b) simp
      note i2 = bytes_loop_idx[OF b]
      show ?thesis
      proof (cases "idx r1 \<le> n")
        case True
        show ?thesis  using i1 i2 True p1 b pop_cut[OF p1] bytes_loop_cut[OF b True] by simp
      next
        case False
        then show ?thesis  using i1 i2 p1 b pop_cut[OF p1] by simp
      qed
    qed
  qed
next
  case (7 r)
  show ?case by simp
next
  case (8 f r)
  show ?case
  proof (cases "pop 1 r")
    case (Inl e)
    then show ?thesis by simp
  next
    case (Inr a)
    then obtain itemID r1 where p1: "pop 1 r = Inr (itemID, r1)" by (cases a) simp
    note i1 = pop_idx[OF p1]
    show ?thesis
    proof (cases "pop 4 r1")
      case (Inl e)
      then show ?thesis using p1 by simp
    next
      case (Inr b)
      then obtain sz r2 where p2: "pop 4 r1 = Inr (sz, r2)" by (cases b) simp
      note i2 = pop_idx[OF p2]
      from "8.IH"[OF p1 refl p2 refl]
      have ih: "cut_outcome n r2 (list_loop f itemID 0 (nat sz) r2 [])
                  (list_loop f itemID 0 (nat sz) (cut n r2) [])" .
      show ?thesis
      proof (cases "list_loop f itemID 0 (nat sz) r2 []")
        case None
        then show ?thesis using p1 p2 by simp
      next
        case (Some res)
        show ?thesis
        proof (cases res)
          case (Inl e)
          then show ?thesis using p1 p2 Some by simp
        next
          case (Inr c)
          then obtain xs r3 where l: "list_loop f itemID 0 (nat sz) r2 [] = Some (Inr (xs, r3))"
            using Some by (cases c) simp
          from ih have m: "idx r2 \<le> idx r3" using l by simp
          show ?thesis
          proof (cases "idx r2 \<le> n")
            case True
            from ih True have c: "list_loop f itemID 0 (nat sz) (cut n r2) []
                = (if idx r3 \<le> n then Some (Inr (xs, cut n r3)) else Some (Inl StructError))" using l by simp
            show ?thesis  using i1 i2 m True p1 p2 l pop_cut[OF p1] pop_cut[OF p2] c by simp
          next
            case False
            then show ?thesis  using i1 i2 m p1 p2 l pop_cut[OF p1] pop_cut[OF p2] by simp
          qed
        qed
      qed
    qed
  qed
next
  case (9 r)
  show ?case by simp
next
  case (10 f r)
  show ?case
  proof (cases "pop 1 r")
    case (Inl e)
    then show ?thesis by simp
  next
    case (Inr a)
    then obtain tagID r1 where p1: "pop 1 r = Inr (tagID, r1)" by (cases a) simp
    note i1 = pop_idx[OF p1]
    from "10.IH"[OF p1 refl]
    have ih: "cut_outcome n r1 (compound_loop f tagID r1 [])
                (compound_loop f tagID (cut n r1) [])" .
    show ?thesis
    proof (cases "compound_loop f tagID r1 []")
      case None
      then show ?thesis using p1 by simp
    next
      case (Some res)
      show ?thesis
      proof (cases res)
        case (Inl e)
        then show ?thesis using p1 Some by simp
      next
        case (Inr c)
        then obtain xs r3 where l: "compound_loop f tagID r1 [] = Some (Inr (xs, r3))"
          using Some by (cases c) simp
        from ih have m: "idx r1 \<le> idx r3" using l by simp
        show ?thesis
        proof (cases "idx r1 \<le> n")
          case True
          from ih True have c: "compound_loop f tagID (cut n r1) []
              = (if idx r3 \<le> n then Some (Inr (xs, cut n r3)) else Some (Inl StructError))" using l by simp
          show ?thesis  using i1 m True p1 l pop_cut[OF p1] c by simp
        next
          case False
          then show ?thesis  using i1 m p1 l pop_cut[OF p1] by simp
        qed
      qed
    qed
  qed
next
  case (11 f itemID i r acc)
  show ?case by simp
next
  case (12 f itemID i m r acc)
  show ?case
  proof (cases "py_getitem tags itemID")
    case (Inl e)
    then show ?thesis by simp
  next
    case (Inr ko)
    show ?thesis
    proof (cases ko)
      case None
      then show ?thesis using Inr by simp
    next
      case (Some k)
      note g = Inr[unfolded Some]
      from "12.IH"(1)[OF g refl]
      have ih1: "cut_outcome n r (tag_decode f k r) (tag_decode f k (cut n r))" .
      show ?thesis
      proof (cases "tag_decode f k r")
        case None
        then show ?thesis using g by simp
      next
        case (Some res)
        show ?thesis
        proof (cases res)
          case (Inl e)
          then show ?thesis using g Some by simp
        next
          case (Inr b)
          then obtain p r1 where d: "tag_decode f k r = Some (Inr (p, r1))"
            using Some by (cases b) simp
          from ih1 have m1: "idx r \<le> idx r1" using d by simp
          from "12.IH"(2)[OF g refl d refl refl]
          have ih2: "cut_outcome n r1
                       (list_loop f itemID (i + 1) m r1 (acc @ [TAG k (PInt i) p]))
                       (list_loop f itemID (i + 1) m (cut n r1) (acc @ [TAG k (PInt i) p]))" .
          show ?thesis
          proof (cases "list_loop f itemID (i + 1) m r1 (acc @ [TAG k (PInt i) p])")
            case None
            then show ?thesis using g d by simp
          next
            case (Some res2)
            show ?thesis
            proof (cases res2)
              case (Inl e)
              then show ?thesis using g d Some by simp
            next
              case (Inr c)
              then obtain xs r2 where
                l: "list_loop f itemID (i + 1) m r1 (acc @ [TAG k (PInt i) p]) = Some (Inr (xs, r2))"
                using Some by (cases c) simp
              from ih2 have m2: "idx r1 \<le> idx r2" using l by simp
              show ?thesis
              proof (cases "idx r \<le> n")
                case rn: True
                from ih1 rn have c1: "tag_decode f k (cut n r)
                    = (if idx r1 \<le> n then Some (Inr (p, cut n r1)) else Some (Inl StructError))" using d by simp
                show ?thesis
                proof (cases "idx r1 \<le> n")
                  case True
                  from ih2 True have c2:
                    "list_loop f itemID (i + 1) m (cut n r1) (acc @ [TAG k (PInt i) p])
                     = (if idx r2 \<le> n then Some (Inr (xs, cut n r2)) else Some (Inl StructError))" using l by simp
                  show ?thesis  using m1 m2 True rn g d l c1 c2 by simp
                next
                  case False
                  then show ?thesis  using m1 m2 rn g d l c1 by simp
                qed
              next
                case False
                then show ?thesis  using m1 m2 g d l by simp
              qed
            qed
          qed
        qed
      qed
    qed
  qed
next
  case (13 tagID r acc)
  show ?case by simp
next
  case (14 f tagID r acc)
  show ?case
  proof (cases "tagID = 0")
    case True
    then show ?thesis by simp
  next
    case nz: False
    show ?thesis
    proof (cases "py_getitem tags tagID")
      case (Inl e)
      then show ?thesis using nz by simp
    next
      case (Inr ko)
      show ?thesis
      proof (cases ko)
        case None
        then show ?thesis using Inr nz by simp
      next
        case (Some k)
        note g = Inr[unfolded Some]
        show ?thesis
        proof (cases "popString r")
          case (Inl e)
          then show ?thesis using g nz by simp
        next
          case (Inr a)
          then obtain nm r1 where ps: "popString r = Inr (nm, r1)" by (cases a) simp
          note i1 = popString_idx[OF ps]
          from "14.IH"(1)[OF nz g refl ps refl]
          have ih1: "cut_outcome n r1 (tag_decode f k r1) (tag_decode f k (cut n r1))" .
          show ?thesis
          proof (cases "tag_decode f k r1")
            case None
            then show ?thesis using g nz ps by simp
          next
            case (Some res)
            show ?thesis
            proof (cases res)
              case (Inl e)
              then show ?thesis using g nz ps Some by simp
            next
              case (Inr b)
              then obtain p r2 where d: "tag_decode f k r1 = Some (Inr (p, r2))"
                using Some by (cases b) simp
              from ih1 have m2: "idx r1 \<le> idx r2" using d by simp
              show ?thesis
              proof (cases "pop 1 r2")
                case (Inl e)
                then show ?thesis using g nz ps d by simp
              next
                case (Inr c)
                then obtain tagID' r3 where p3: "pop 1 r2 = Inr (tagID', r3)" by (cases c) simp
                note i3 = pop_idx[OF p3]
                from "14.IH"(2)[OF nz g refl ps refl d refl refl p3 refl]
                have ih2: "cut_outcome n r3
                             (compound_loop f tagID' r3 (acc @ [TAG k (PStr nm) p]))
                             (compound_loop f tagID' (cut n r3) (acc @ [TAG k (PStr nm) p]))" .
                show ?thesis
                proof (cases "compound_loop f tagID' r3 (acc @ [TAG k (PStr nm) p])")
                  case None
                  then show ?thesis using g nz ps d p3 by simp
                next
                  case (Some res2)
                  show ?thesis
                  proof (cases res2)
                    case (Inl e)
                    then show ?thesis using g nz ps d p3 Some by simp
                  next
                    case (Inr c2)
                    then obtain xs r4 where
                      l: "compound_loop f tagID' r3 (acc @ [TAG k (PStr nm) p]) = Some (Inr (xs, r4))"
                      using Some by (cases c2) simp
                    from ih2 have m4: "idx r3 \<le> idx r4" using l by simp
                    have mono: "idx r \<le> idx r4" using i1 m2 i3 m4 by simp
                    show ?thesis
                    proof (cases "idx r3 \<le> n")
                      case True
                      then have b2: "idx r2 \<le> n" and b1: "idx r1 \<le> n"
                        using i3 m2 by simp_all
                      from ih1 b1 b2 have c1: "tag_decode f k (cut n r1) = Some (Inr (p, cut n r2))" using d by simp
                      from ih2 True have c2:
                        "compound_loop f tagID' (cut n r3) (acc @ [TAG k (PStr nm) p])
                         = (if idx r4 \<le> n then Some (Inr (xs, cut n r4))
                            else Some (Inl StructError))" using l by simp
                      show ?thesis  using mono nz True b1 g ps d p3 l popString_cut[OF ps] c1 pop_cut[OF p3] c2 by simp
                    next
                      case False
                      then have big: "\<not> idx r4 \<le> n" using m4 by simp
                      show ?thesis
                      proof (cases "idx r1 \<le> n")
                        case b1: True
                        from ih1 b1 have c1: "tag_decode f k (cut n r1)
                            = (if idx r2 \<le> n then Some (Inr (p, cut n r2))
                               else Some (Inl StructError))" using d by simp
                        show ?thesis  using mono nz False big g ps d p3 l popString_cut[OF ps] c1 pop_cut[OF p3] by simp
                      next
                        case b1: False
                        show ?thesis  using mono nz False big b1 g ps d p3 l popString_cut[OF ps] by simp
                      qed
                    qed
                  qed
                qed
              qed
            qed
          qed
        qed
      qed
    qed
  qed
qed

lemma decode_loops_fuel:
  "tag_decode f k r = Some x \<Longrightarrow> tag_decode (Suc f) k r = Some x"
  "list_loop f itemID i m r acc = Some y \<Longrightarrow> list_loop (Suc f) itemID i m r acc = Some y"
  "compound_loop f tagID r acc = Some y \<Longrightarrow> compound_loop (Suc f) tagID r acc = Some y"
proof (induction f k r and f itemID i m r acc and f tagID r acc
       arbitrary: x and y and y
       rule: tag_decode_list_loop_compound_loop.induct)
  case (8 f r)
  show ?case
  proof (cases "pop 1 r")
    case (Inl e)
    then show ?thesis using "8.prems" by simp
  next
    case (Inr a)
    then obtain itemID r1 where p1: "pop 1 r = Inr (itemID, r1)" by (cases a) simp
    show ?thesis
    proof (cases "pop 4 r1")
      case (Inl e)
      then show ?thesis using p1 "8.prems" by simp
    next
      case (Inr b)
      then obtain sz r2 where p2: "pop 4 r1 = Inr (sz, r2)" by (cases b) simp
      from "8.prems" p1 p2 obtain y where
        l: "list_loop f itemID 0 (nat sz) r2 [] = Some y"
        by (cases "list_loop f itemID 0 (nat sz) r2 []") auto
      from "8.IH"[OF p1 refl p2 refl l]
      have "list_loop (Suc f) itemID 0 (nat sz) r2 [] = Some y" .
      then show ?thesis using "8.prems" p1 p2 l by simp
    qed
  qed
next
  case (10 f r)
  show ?case
  proof (cases "pop 1 r")
    case (Inl e)
    then show ?thesis using "10.prems" by simp
  next
    case (Inr a)
    then obtain tagID r1 where p1: "pop 1 r = Inr (tagID, r1)" by (cases a) simp
    from "10.prems" p1 obtain y where l: "compound_loop f tagID r1 [] = Some y"
      by (cases "compound_loop f tagID r1 []") auto
    from "10.IH"[OF p1 refl l] have "compound_loop (Suc f) tagID r1 [] = Some y" .
    then show ?thesis using "10.prems" p1 l by simp
  qed
next
  case (12 f itemID i m r acc)
  show ?case
  proof (cases "py_getitem tags itemID")
    case (Inl e)
    then show ?thesis using "12.prems" by simp
  next
    case (Inr ko)
    show ?thesis
    proof (cases ko)
      case None
      then show ?thesis using Inr "12.prems" by simp
    next
      case (Some k)
      note g = Inr[unfolded Some]
      from "12.prems" g obtain x where d: "tag_decode f k r = Some x"
        by (cases "tag_decode f k r") auto
      from "12.IH"(1)[OF g refl d] have d': "tag_decode (Suc f) k r = Some x" .
      show ?thesis
      proof (cases x)
        case (Inl e)
        then show ?thesis using "12.prems" g d d' by simp
      next
        case (Inr b)
        then obtain p r1 where x: "x = Inr (p, r1)" by (cases b) simp
        from "12.prems" g d x have
          l: "list_loop f itemID (i + 1) m r1 (acc @ [TAG k (PInt i) p]) = Some y" by simp
        from "12.IH"(2)[OF g refl d[unfolded x] refl refl l]
        have "list_loop (Suc f) itemID (i + 1) m r1 (acc @ [TAG k (PInt i) p]) = Some y" .
        then show ?thesis using g d' x by simp
      qed
    qed
  qed
next
  case (14 f tagID r acc)
  show ?case
  proof (cases "tagID = 0")
    case True
    then show ?thesis using "14.prems" by simp
  next
    case nz: False
    show ?thesis
    proof (cases "py_getitem tags tagID")
      case (Inl e)
      then show ?thesis using nz "14.prems" by simp
    next
      case (Inr ko)
      show ?thesis
      proof (cases ko)
        case None
        then show ?thesis using Inr nz "14.prems" by simp
      next
        case (Some k)
        note g = Inr[unfolded Some]
        show ?thesis
        proof (cases "popString r")
          case (Inl e)
          then show ?thesis using g nz "14.prems" by simp
        next
          case (Inr a)
          then obtain nm r1 where ps: "popString r = Inr (nm, r1)" by (cases a) simp
          from "14.prems" nz g ps obtain x where d: "tag_decode f k r1 = Some x"
            by (cases "tag_decode f k r1") auto
          from "14.IH"(1)[OF nz g refl ps refl d] have d': "tag_decode (Suc f) k r1 = Some x" .
          show ?thesis
          proof (cases x)
            case (Inl e)
            then show ?thesis using "14.prems" nz g ps d d' by simp
          next
            case (Inr b)
            then obtain p r2 where x: "x = Inr (p, r2)" by (cases b) simp
            show ?thesis
            proof (cases "pop 1 r2")
              case (Inl e)
              then show ?thesis using "14.prems" nz g ps d d' x by simp
            next
              case (Inr c)
              then obtain tagID' r3 where p3: "pop 1 r2 = Inr (tagID', r3)" by (cases c) simp
              from "14.prems" nz g ps d x p3 have
                l: "compound_loop f tagID' r3 (acc @ [TAG k (PStr nm) p]) = Some y" by simp
              from "14.IH"(2)[OF nz g refl ps refl d[unfolded x] refl refl p3 refl l]
              have "compound_loop (Suc f) tagID' r3 (acc @ [TAG k (PStr nm) p]) = Some y" .
              then show ?thesis using nz g ps d' x p3 by simp
            qed
          qed
        qed
      qed
    qed
  qed
qed simp_all

lemma decode_fuel_Suc:
  assumes "decode_fuel f r = Some x"
  shows "decode_fuel (Suc f) r = Some x"
proof (cases "pop 1 r")
  case (Inl e)
  then show ?thesis using assms by (simp add: decode_fuel_def)
next
  case (Inr a)
  then obtain tagID r1 where p1: "pop 1 r = Inr (tagID, r1)" by (cases a) simp
  show ?thesis
  proof (cases "py_getitem tags tagID")
    case (Inl e)
    then show ?thesis using assms p1 by (simp add: decode_fuel_def)
  next
    case (Inr ko)
    show ?thesis
    proof (cases ko)
      case None
      then show ?thesis using assms p1 Inr by (simp add: decode_fuel_def)
    next
      case (Some k)
      note g = Inr[unfolded Some]
      show ?thesis
      proof (cases "popString r1")
        case (Inl e)
        then show ?thesis using assms p1 g by (simp add: decode_fuel_def)
      next
        case (Inr b)
        then obtain nm r2 where ps: "popString r1 = Inr (nm, r2)" by (cases b) simp
        from assms p1 g ps obtain y where d: "tag_decode f k r2 = Some y"
          by (cases "tag_decode f k r2") (auto simp: decode_fuel_def)
        from decode_loops_fuel(1)[OF d] have "tag_decode (Suc f) k r2 = Some y" .
        then show ?thesis using assms p1 g ps d by (simp add: decode_fuel_def)
      qed
    qed
  qed
qed

lemma decode_fuel_cut:
  assumes "decode_fuel f r = Some (Inr (t, r'))"
  shows "idx r < idx r'"
    and "decode_fuel f (cut n r)
         = (if idx r' \<le> n then Some (Inr (t, cut n r')) else Some (Inl StructError))"
proof -
  from assms obtain tagID r1 where p1: "pop 1 r = Inr (tagID, r1)"
    by (cases "pop 1 r") (auto simp: decode_fuel_def)
  from assms p1 obtain k where g: "py_getitem tags tagID = Inr (Some k)"
    by (auto simp: decode_fuel_def split: sum.splits option.splits)
  from assms p1 g obtain nm r2 where ps: "popString r1 = Inr (nm, r2)"
    by (cases "popString r1") (auto simp: decode_fuel_def)
  from assms p1 g ps obtain p where d: "tag_decode f k r2 = Some (Inr (p, r'))"
    and t: "t = TAG k (PStr nm) p"
    by (auto simp: decode_fuel_def split: sum.splits option.splits)
  note i1 = pop_idx[OF p1]
  note i2 = popString_idx[OF ps]
  from decode_loops_cut(1)[of n r2 f k]
  have m: "idx r2 \<le> idx r'"
    and c: "idx r2 \<le> n \<Longrightarrow> tag_decode f k (cut n r2)
         = (if idx r' \<le> n then Some (Inr (p, cut n r')) else Some (Inl StructError))"
    using d by simp_all
  show "idx r < idx r'" using i1 i2 m by simp
  show "decode_fuel f (cut n r)
         = (if idx r' \<le> n then Some (Inr (t, cut n r')) else Some (Inl StructError))"
  proof (cases "idx r2 \<le> n")
    case True
    then have b1: "idx r1 \<le> n" using i2 by simp
    show ?thesis
      using True b1 p1 g ps t pop_cut[OF p1, of n] popString_cut[OF ps, of n] c[OF True]
      by (simp add: decode_fuel_def)
  next
    case False
    then have big: "\<not> idx r' \<le> n" using m by simp
    show ?thesis
    proof (cases "idx r1 \<le> n")
      case True
      then show ?thesis
        using False big p1 g ps pop_cut[OF p1, of n] popString_cut[OF ps, of n]
        by (simp add: decode_fuel_def)
    next
      case b1: False
      then show ?thesis
        using big p1 pop_cut[OF p1, of n] by (simp add: decode_fuel_def)
    qed
  qed
qed

lemma decode_cut_last:
  assumes "decode r = Some (Inr (t, r'))" "idx r' = length (data r)"
  shows "decode (r\<lparr>data := butlast (data r)\<rparr>) = Some (Inl StructError)"
proof -
  let ?n = "length (data r) - 1"
  let ?f = "Suc (length (data r))"
  have d: "decode_fuel ?f r = Some (Inr (t, r'))" using assms(1) by (simp add: decode_def)
  from decode_fuel_cut(1)[OF d] assms(2) have "idx r < length (data r)" by simp
  then have pos: "0 < length (data r)" by (rule le_less_trans[OF le0])
  then have big: "\<not> idx r' \<le> ?n" using assms(2) by arith
  have cr: "r\<lparr>data := butlast (data r)\<rparr> = cut ?n r"
    by (simp add: cut_def butlast_conv_take)
  from decode_fuel_cut(2)[OF d, of ?n] big
  have c: "decode_fuel ?f (cut ?n r) = Some (Inl StructError)" by simp
  have "length (data (cut ?n r)) = ?n" by simp
  then have len: "Suc (length (data (cut ?n r))) = length (data r)" using pos by arith
  from decode_total[of "cut ?n r"] obtain res where
    "decode (cut ?n r) = Some res" by blast
  then have r1: "decode_fuel (length (data r)) (cut ?n r) = Some res"
    unfolding decode_def len .
  from decode_fuel_Suc[OF r1] c have "res = Inl StructError" by simp
  then show ?thesis using r1 unfolding cr decode_def len by simp
qed

lemma decode_fuel_add: "decode_fuel f r = Some x \<Longrightarrow> decode_fuel (f + k) r = Some x"
  by (induction k) (simp_all add: decode_fuel_Suc)

lemma decode_cut:
  assumes "decode r = Some (Inr (t, r'))"
  shows "idx r < idx r'"
    and "decode (cut n r)
         = (if idx r' \<le> n then Some (Inr (t, cut n r')) else Some (Inl StructError))"
proof -
  let ?L = "length (data r)"
  have d: "decode_fuel (Suc ?L) r = Some (Inr (t, r'))" using assms by (simp add: decode_def)
  show "idx r < idx r'" by (rule decode_fuel_cut(1)[OF d])
  note c = decode_fuel_cut(2)[OF d, of n]
  from decode_total[of "cut n r"] obtain res where r1: "decode (cut n r) = Some res" by blast
  then have "decode_fuel (Suc (min ?L n)) (cut n r) = Some res" by (simp add: decode_def)
  from decode_fuel_add[OF this, of "?L - min ?L n"]
  have "decode_fuel (Suc ?L) (cut n r) = Some res" by simp
  with c r1 show "decode (cut n r)
         = (if idx r' \<le> n then Some (Inr (t, cut n r')) else Some (Inl StructError))"
    by simp
qed

lemma palette_loop_idx:
  "palette_loop m r acc = Some (Inr (pal, r')) \<Longrightarrow> idx r \<le> idx r'"
proof (induction m arbitrary: r acc)
  case 0
  then show ?case by simp
next
  case (Suc m)
  from Suc.prems obtain t r1 where d: "decode r = Some (Inr (t, r1))"
    and p: "palette_loop m r1 (acc @ [t]) = Some (Inr (pal, r'))"
    by (auto split: option.splits sum.splits)
  from decode_cut(1)[OF d] Suc.IH[OF p] show ?case by simp
qed

lemma palette_loop_cut:
  "palette_loop m r acc = Some (Inr (pal, r')) \<Longrightarrow> idx r \<le> n \<Longrightarrow>
     palette_loop m (cut n r) acc
     = (if idx r' \<le> n then Some (Inr (pal, cut n r')) else Some (Inl StructError))"
proof (induction m arbitrary: r acc)
  case 0
  then show ?case by simp
next
  case (Suc m)
  from Suc.prems(1) obtain t r1 where d: "decode r = Some (Inr (t, r1))"
    and p: "palette_loop m r1 (acc @ [t]) = Some (Inr (pal, r'))"
    by (auto split: option.splits sum.splits)
  note m1 = palette_loop_idx[OF p]
  note c = decode_cut(2)[OF d, of n]
  show ?case
  proof (cases "idx r1 \<le> n")
    case True
    from Suc.IH[OF p True] c True show ?thesis by simp
  next
    case False
    then have "\<not> idx r' \<le> n" using m1 by simp
    then show ?thesis using c False by simp
  qed
qed

lemma reader_butlast: "reader (butlast xs) = cut (length xs - 1) (reader xs)"
  by (simp add: reader_def cut_def butlast_conv_take)

lemma loadBlocks_butlast:
  assumes "loadBlocks data2 = Inr (raw, rest)" "rest \<noteq> []"
  shows "loadBlocks (butlast data2) = Inr (raw, butlast rest)"
proof -
  from assms(1) obtain b data1 where d2: "data2 = b # data1"
    by (cases data2) (simp_all add: loadBlocks_def)
  let ?bits = "drop_bit 1 (unat b)"
  let ?bpw = "32 div ?bits"
  let ?nw = "nat (- ((- 4096) div int ?bpw))"
  from assms(1) have b0: "?bits \<noteq> 0" and w0: "?bpw \<noteq> 0"
    unfolding d2 by (auto simp: loadBlocks_def Let_def split: if_splits)
  from assms(1) b0 w0 obtain ws where
    u: "unpack_I ?nw (take (4 * ?nw) data1) = Inr ws"
    and raw: "raw = unpack_words ?bits ?bpw 0 ws (replicate 4096 0)"
    and rest: "rest = drop (4 * ?nw) data1"
    unfolding d2 by (auto simp: loadBlocks_def Let_def split: if_splits sum.splits)
  have lt: "4 * ?nw < length data1" using assms(2) rest by simp
  then have ne: "data1 \<noteq> []" by auto
  have t: "take (4 * ?nw) (butlast data1) = take (4 * ?nw) data1"
    using lt by (rule take_butlast)
  have dr: "drop (4 * ?nw) (butlast data1) = butlast rest"
    unfolding rest by (simp add: butlast_drop)
  have bl: "butlast data2 = b # butlast data1" using ne d2 by simp
  show ?thesis
    unfolding bl using b0 w0 u raw t dr by (simp add: loadBlocks_def Let_def)
qed

lemma subchunk_cut_last:
  assumes "SubChunk_decode x z y d = Some (Inr sc)" "palette_ends_buffer d"
  shows "SubChunk_decode x z y (butlast d) = Some (Inl StructError)"
proof -
  from assms(1) obtain v ns data2 where d: "d = v # ns # data2"
    by (auto simp: SubChunk_decode_def split: list.splits if_splits)
  from assms(1) d have v: "unat v = 8" and ns: "unat ns = 1"
    by (auto simp: SubChunk_decode_def split: if_splits)
  from assms(1) d obtain raw rest where lb: "loadBlocks data2 = Inr (raw, rest)"
    by (auto simp: SubChunk_decode_def split: if_splits sum.splits)
  from assms(2) d lb obtain n where u: "unpack_I1 (take 4 rest) = Inr n"
    by (auto simp: palette_ends_buffer_def split: sum.splits)
  from assms(2) d lb u obtain pal dr where
    pl: "palette_loop (nat n) (reader (drop 4 rest)) [] = Some (Inr (pal, dr))"
    and e: "idx dr = length (drop 4 rest)"
    by (auto simp: palette_ends_buffer_def split: sum.splits option.splits)
  from u have l4: "4 \<le> length rest"
    by (auto simp: unpack_I1_def split: if_splits)
  then have ne: "rest \<noteq> []" by auto
  note lb' = loadBlocks_butlast[OF lb ne]
  have d2: "data2 \<noteq> []" using lb by (auto simp: loadBlocks_def)
  have bd: "butlast d = v # ns # butlast data2" using d d2 by simp
  have lp: "loadPalette (butlast rest) = Some (Inl StructError)"
  proof (cases "length rest = 4")
    case True
    then have "length (take 4 (butlast rest)) \<noteq> 4" by simp
    then show ?thesis by (simp add: loadPalette_def unpack_I1_def)
  next
    case False
    then have l5: "4 < length rest" using l4 by simp
    have t: "take 4 (butlast rest) = take 4 rest"
      using l5 by (rule take_butlast)
    have dr4: "drop 4 (butlast rest) = butlast (drop 4 rest)" by (simp add: butlast_drop)
    have big: "\<not> idx dr \<le> length (drop 4 rest) - 1" using e l5 by simp
    have i0: "idx (reader (drop 4 rest)) \<le> length (drop 4 rest) - 1"
      by (simp add: reader_def)
    have "palette_loop (nat n) (cut (length (drop 4 rest) - 1) (reader (drop 4 rest))) []
          = Some (Inl StructError)"
      using palette_loop_cut[OF pl i0] big by (simp only: if_False)
    then have "palette_loop (nat n) (reader (butlast (drop 4 rest))) [] = Some (Inl StructError)"
      by (simp only: reader_butlast)
    then show ?thesis by (simp add: loadPalette_def t u dr4)
  qed
  show ?thesis
    unfolding bd SubChunk_decode_def
    by (simp only: list.case v ns if_True refl lb' lp sum.case prod.case option.case)
qed

subsection \<open>Removing a child of a compound by name\<close>

lemma pop_loop_none:
  "(\<And>k. i \<le> k \<Longrightarrow> k < i + m \<Longrightarrow> name (xs ! k) \<noteq> n) \<Longrightarrow> pop_loop xs n i m = (None, xs)"
proof (induction m arbitrary: i)
  case 0
  show ?case by simp
next
  case (Suc m)
  have "name (xs ! i) \<noteq> n" using Suc.prems[of i] by simp
  moreover have "pop_loop xs n (Suc i) m = (None, xs)"
    using Suc.prems by (intro Suc.IH) simp_all
  ultimately show ?case by simp
qed

lemma pop_loop_found:
  assumes "xs = pre @ c # post" "name c = n" "\<And>p. p \<in> set pre \<Longrightarrow> name p \<noteq> n"
  shows "i \<le> length pre \<Longrightarrow> i + m = length xs \<Longrightarrow> pop_loop xs n i m = (Some c, pre @ post)"
proof (induction "length pre - i" arbitrary: i m)
  case 0
  then have i: "i = length pre" by simp
  then obtain m' where m: "m = Suc m'" using 0 assms(1) by (cases m) auto
  show ?case using assms(1,2) i m by (simp add: nth_append)
next
  case (Suc d)
  then have lt: "i < length pre" by simp
  then obtain m' where m: "m = Suc m'" using Suc.prems assms(1) by (cases m) auto
  have "name (xs ! i) \<noteq> n" using lt assms(1,3) by (simp add: nth_append)
  moreover have "pop_loop xs n (Suc i) m' = (Some c, pre @ post)"
    using Suc lt m by (intro Suc.hyps(1)) simp_all
  ultimately show ?case using m by simp
qed

text \<open>
  Claim C10.  \<^verbatim>\<open>TAG_Compound.pop\<close> with a name that no child has returns \<^verbatim>\<open>None\<close>
  and leaves the children as they are.  Otherwise it removes and returns the first
  child with that name: the children before it and after it stay, in their
  order, later children of the same name included.
\<close>

theorem compound_pop_first_match:
  "((\<forall>c \<in> set xs. name c \<noteq> n) \<longrightarrow>
      TAG_Compound_pop (TAG TAG_Compound m (PList xs)) n
        = Inr (None, TAG TAG_Compound m (PList xs))) \<and>
   (\<forall>pre c post. xs = pre @ c # post \<and> name c = n \<and> (\<forall>p \<in> set pre. name p \<noteq> n) \<longrightarrow>
      TAG_Compound_pop (TAG TAG_Compound m (PList xs)) n
        = Inr (Some c, TAG TAG_Compound m (PList (pre @ post))))"
proof (intro conjI impI allI)
  assume "\<forall>c \<in> set xs. name c \<noteq> n"
  then have "pop_loop xs n 0 (length xs) = (None, xs)"
    by (intro pop_loop_none) simp
  then show "TAG_Compound_pop (TAG TAG_Compound m (PList xs)) n
        = Inr (None, TAG TAG_Compound m (PList xs))"
    by (simp add: TAG_Compound_pop_def)
next
  fix pre c post
  assume a: "xs = pre @ c # post \<and> name c = n \<and> (\<forall>p \<in> set pre. name p \<noteq> n)"
  then have "pop_loop xs n 0 (length xs) = (Some c, pre @ post)"
    by (intro pop_loop_found) auto
  then show "TAG_Compound_pop (TAG TAG_Compound m (PList xs)) n
        = Inr (Some c, TAG TAG_Compound m (PList (pre @ post)))"
    by (simp add: TAG_Compound_pop_def)
qed

theorem compound_pop_first_match_witness:
  "TAG_Compound_pop
     (TAG TAG_Compound (PStr [])
        (PList [TAG TAG_Int (PStr [121]) (PInt 64), TAG TAG_Int (PStr [120]) (PInt 5),
                TAG TAG_Int (PStr [120]) (PInt 7)]))
     (PStr [122])
   = Inr (None,
      TAG TAG_Compound (PStr [])
        (PList [TAG TAG_Int (PStr [121]) (PInt 64), TAG TAG_Int (PStr [120]) (PInt 5),
                TAG TAG_Int (PStr [120]) (PInt 7)])) \<and>
   TAG_Compound_pop
     (TAG TAG_Compound (PStr [])
        (PList [TAG TAG_Int (PStr [121]) (PInt 64), TAG TAG_Int (PStr [120]) (PInt 5),
                TAG TAG_Int (PStr [120]) (PInt 7)]))
     (PStr [120])
   = Inr (Some (TAG TAG_Int (PStr [120]) (PInt 5)),
      TAG TAG_Compound (PStr [])
        (PList [TAG TAG_Int (PStr [121]) (PInt 64), TAG TAG_Int (PStr [120]) (PInt 7)]))"
proof -
  let ?y = "TAG TAG_Int (PStr [121]) (PInt 64)"
  let ?x5 = "TAG TAG_Int (PStr [120]) (PInt 5)"
  let ?x7 = "TAG TAG_Int (PStr [120]) (PInt 7)"
  have none: "\<forall>c \<in> set [?y, ?x5, ?x7]. name c \<noteq> PStr [122]" by simp
  have found: "[?y, ?x5, ?x7] = [?y] @ ?x5 # [?x7] \<and> name ?x5 = PStr [120]
                 \<and> (\<forall>p \<in> set [?y]. name p \<noteq> PStr [120])" by simp
  from compound_pop_first_match[of "[?y, ?x5, ?x7]" "PStr [122]" "PStr []"] none
  have 1: "TAG_Compound_pop (TAG TAG_Compound (PStr []) (PList [?y, ?x5, ?x7])) (PStr [122])
        = Inr (None, TAG TAG_Compound (PStr []) (PList [?y, ?x5, ?x7]))" by blast
  from compound_pop_first_match[of "[?y, ?x5, ?x7]" "PStr [120]" "PStr []"] found
  have 2: "TAG_Compound_pop (TAG TAG_Compound (PStr []) (PList [?y, ?x5, ?x7])) (PStr [120])
        = Inr (Some ?x5, TAG TAG_Compound (PStr []) (PList ([?y] @ [?x7])))" by blast
  from 1 2 show ?thesis by simp
qed


subsection \<open>Encoding and decoding a tag tree\<close>

text \<open>
  Claim C1, as amended.  For every tag tree that \<open>wf_top\<close> admits (integers
  within the width of their class, ASCII strings and names of at most 32767
  characters, byte arrays of \<^verbatim>\<open>TAG_Byte\<close> items and lists of items of one class,
  each item named by its position, compounds with children named by strings),
  \<^verbatim>\<open>encode\<close> returns a buffer, and \<^verbatim>\<open>decode\<close> on that buffer returns a tag equal
  to the tree (same class, same name, same payload, children in the same
  order) and stops at the end of the buffer.
\<close>

theorem tag_roundtrip:
  assumes "wf_top t"
  shows "\<exists>bs. encode t None = Inr bs
           \<and> decode (reader bs) = Some (Inr (t, \<lparr>data = bs, idx = length bs\<rparr>))"
proof -
  have "decode (reader (encode_bytes t))
        = Some (Inr (t, advance (length (encode_bytes t)) (reader (encode_bytes t))))"
    by (rule decode_roundtrip[OF assms, where rest = "[]"]) (simp add: remaining_def reader_def)
  then show ?thesis
    using encode_wf_top[OF assms] by (simp add: advance_def reader_def)
qed

theorem tag_roundtrip_witness:
  "wf_top (TAG TAG_Compound (PStr [])
             (PList [TAG TAG_Int (PStr [120]) (PInt 5), TAG TAG_Int (PStr [121]) (PInt 64),
                     TAG TAG_Int (PStr [122]) (PInt (- 2))])) \<and>
   (\<exists>bs. encode (TAG TAG_Compound (PStr [])
             (PList [TAG TAG_Int (PStr [120]) (PInt 5), TAG TAG_Int (PStr [121]) (PInt 64),
                     TAG TAG_Int (PStr [122]) (PInt (- 2))])) None = Inr bs
       \<and> decode (reader bs)
           = Some (Inr (TAG TAG_Compound (PStr [])
                (PList [TAG TAG_Int (PStr [120]) (PInt 5), TAG TAG_Int (PStr [121]) (PInt 64),
                        TAG TAG_Int (PStr [122]) (PInt (- 2))]),
                \<lparr>data = bs, idx = length bs\<rparr>)))"
proof -
  let ?t = "TAG TAG_Compound (PStr [])
             (PList [TAG TAG_Int (PStr [120]) (PInt 5), TAG TAG_Int (PStr [121]) (PInt 64),
                     TAG TAG_Int (PStr [122]) (PInt (- 2))])"
  have w: "wf_top ?t"
    by (simp add: wf_top_def wf_string_def ascii_def in_range_def)
  show ?thesis using w tag_roundtrip[OF w] by simp
qed

text \<open>
  The claim as stated fails for a list whose item carries a name of its own:
  the name of an item is not written, and the decoder names the item by its
  position, the integer 0 here, so the decoded tag differs from the tree.
\<close>

theorem list_item_name_counterexample:
  "encode (TAG TAG_List (PStr []) (PList [TAG TAG_Byte (PStr [97]) (PInt 1)])) None
     = Inr [9, 0, 0, 1, 1, 0, 0, 0, 1] \<and>
   decode (reader [9, 0, 0, 1, 1, 0, 0, 0, 1])
     = Some (Inr (TAG TAG_List (PStr []) (PList [TAG TAG_Byte (PInt 0) (PInt 1)]),
                  \<lparr>data = [9, 0, 0, 1, 1, 0, 0, 0, 1], idx = 9\<rparr>)) \<and>
   TAG TAG_List (PStr []) (PList [TAG TAG_Byte (PInt 0) (PInt 1)])
     \<noteq> TAG TAG_List (PStr []) (PList [TAG TAG_Byte (PStr [97]) (PInt 1)])"
  by (simp add: eval_simps)

subsection \<open>The length prefix of a string\<close>

text \<open>
  Claim C3.  The string of the single code point U+00E9 has two UTF-8 bytes.
  \<^verbatim>\<open>putString\<close> writes the length prefix 1, the number of code points, and
  only the first of the two bytes; the decoder then fails on the buffer.  A
  string of 32768 characters, below the limit of 65535 bytes, is refused.
\<close>

theorem putString_code_point_count:
  "utf8_encode [233] = Some [0xC3, 0xA9] \<and>
   encode (TAG TAG_String (PStr []) (PStr [233])) None = Inr [8, 0, 0, 1, 0, 0xC3] \<and>
   decode (reader [8, 0, 0, 1, 0, 0xC3]) = Some (Inl UnicodeDecodeError) \<and>
   encode (TAG TAG_String (PStr []) (PStr (replicate 32768 97))) None = Inl StructError"
  by (simp add: eval_simps)

subsection \<open>The element kind of a list\<close>

text \<open>
  Claim C4, as amended.  For a list with an empty payload \<^verbatim>\<open>TAG_List.encode\<close>
  writes the discriminant 0 (\<^verbatim>\<open>TAG_End\<close>), followed by the four bytes of the
  count zero.
\<close>

theorem empty_list_encoding:
  "tag_encode (TAG TAG_List n (PList [])) w = Inr (w @ [0, 0, 0, 0, 0])"
  by (simp add: eval_simps)

text \<open>The claim as stated asks for the discriminant 1 in the first byte.\<close>

theorem empty_list_kind_counterexample:
  "tag_encode (TAG TAG_List (PStr []) (PList [])) [] \<noteq> Inr [1, 0, 0, 0, 0]"
  by (simp add: eval_simps)

text \<open>
  Claim C6, as amended.  \<^verbatim>\<open>TAG_List.encode\<close> does not compare the classes of the
  items.  For every non-empty list of fewer than \<open>2 ^ 31\<close> items, each of which
  encodes on its own, encoding succeeds: it writes the discriminant of the
  class of the first item, the count, and the bytes of every item as its own
  class encodes it.
\<close>

theorem list_encode_no_kind_check:
  assumes "xs \<noteq> []" "length xs < 2 ^ 31" "\<forall>x \<in> set xs. \<exists>bs. tag_encode x [] = Inr bs"
  shows "tag_encode (TAG TAG_List n (PList xs)) w
         = Inr (w @ le_bytes 1 (ID (cls (hd xs))) @ le_bytes 4 (int (length xs))
                  @ concat (map tag_bytes xs))"
proof -
  have ok: "tag_encode x [] = Inr (tag_bytes x)" if "x \<in> set xs" for x
    using assms(3) that by (auto simp: tag_bytes_def)
  have "item_kind xs = ID (cls (hd xs))"
    using assms(1) by (cases xs) (simp_all add: item_kind_def)
  then show ?thesis
    using tag_encode_List[OF ok assms(2), of n w] by simp
qed

theorem list_encode_no_kind_check_witness:
  "[TAG TAG_Byte (PInt 0) (PInt 1), TAG TAG_Short (PInt 1) (PInt 2)] \<noteq> [] \<and>
   cls (TAG TAG_Byte (PInt 0) (PInt 1)) \<noteq> cls (TAG TAG_Short (PInt 1) (PInt 2)) \<and>
   tag_encode (TAG TAG_List (PStr [108])
       (PList [TAG TAG_Byte (PInt 0) (PInt 1), TAG TAG_Short (PInt 1) (PInt 2)])) []
     = Inr [1, 2, 0, 0, 0, 1, 2, 0]"
proof -
  let ?xs = "[TAG TAG_Byte (PInt 0) (PInt 1), TAG TAG_Short (PInt 1) (PInt 2)]"
  have a: "?xs \<noteq> []" by simp
  have b: "length ?xs < 2 ^ 31" by simp
  have c: "\<forall>x \<in> set ?xs. \<exists>bs. tag_encode x [] = Inr bs" by (simp add: eval_simps)
  have tb: "concat (map tag_bytes ?xs) = [1, 2, 0]" by (simp add: tag_bytes_def eval_simps)
  show ?thesis
    using list_encode_no_kind_check[OF a b c, of "PStr [108]" "[]"] tb
    by (simp add: le_bytes_numeral)
qed

text \<open>
  The claim as stated asks for a failure: a list of a byte and a short is
  encoded into a buffer.
\<close>

theorem heterogeneous_list_counterexample:
  "encode (TAG TAG_List (PStr [])
      (PList [TAG TAG_Byte (PInt 0) (PInt 1), TAG TAG_Short (PInt 1) (PInt 2)])) None
   = Inr [9, 0, 0, 1, 2, 0, 0, 0, 1, 2, 0]"
  by (simp add: eval_simps)

subsection \<open>Discriminants outside the table\<close>

text \<open>
  Claim C8.  The discriminant is read as a signed byte and used as a Python
  list index, so the bytes 0xF4 to 0xF7 and 0xFA to 0xFD select the classes at
  the indices 1 to 4 and 7 to 10 counted from the end of the table: the byte
  0xFD decodes as a compound, at the top level, the byte 0xF4 as a byte tag
  inside a compound and as the element kind of a list.  A discriminant from
  13 on is an \<^verbatim>\<open>IndexError\<close>, and the element kind 0 of a non-empty list is a
  \<^verbatim>\<open>TypeError\<close>, since \<^verbatim>\<open>TAG_List.decode\<close> calls the table entry without testing
  it.  Only an entry \<^verbatim>\<open>None\<close> of the table, as for the discriminant 5, raises
  \<^verbatim>\<open>NotImplementedError\<close>.
\<close>

theorem discriminant_dispatch_slips:
  "decode (reader [0xFD, 0, 0, 0])
     = Some (Inr (TAG TAG_Compound (PStr []) (PList []), \<lparr>data = [0xFD, 0, 0, 0], idx = 4\<rparr>)) \<and>
   decode (reader [13, 0, 0]) = Some (Inl IndexError) \<and>
   decode (reader [10, 0, 0, 0xF4, 0, 0, 7, 0])
     = Some (Inr (TAG TAG_Compound (PStr []) (PList [TAG TAG_Byte (PStr []) (PInt 7)]),
                  \<lparr>data = [10, 0, 0, 0xF4, 0, 0, 7, 0], idx = 8\<rparr>)) \<and>
   decode (reader [9, 0, 0, 0, 1, 0, 0, 0, 5]) = Some (Inl TypeError) \<and>
   decode (reader [9, 0, 0, 0xF4, 1, 0, 0, 0, 5])
     = Some (Inr (TAG TAG_List (PStr []) (PList [TAG TAG_Byte (PInt 0) (PInt 5)]),
                  \<lparr>data = [9, 0, 0, 0xF4, 1, 0, 0, 0, 5], idx = 9\<rparr>)) \<and>
   decode (reader [5, 0, 0]) = Some (Inl NotImplementedError)"
  by (simp add: eval_simps)

subsection \<open>Arrays of the shape (16, 16, 16)\<close>

lemma shape16_len1: "shape16 arr \<Longrightarrow> length arr = 16"
  by (simp add: shape16_def)

lemma shape16_len2: "shape16 arr \<Longrightarrow> a < 16 \<Longrightarrow> length (arr ! a) = 16"
  by (auto simp: shape16_def list_all_length)

lemma shape16_len3: "shape16 arr \<Longrightarrow> a < 16 \<Longrightarrow> b < 16 \<Longrightarrow> length (arr ! a ! b) = 16"
  by (auto simp: shape16_def list_all_length)

lemma shape16I:
  assumes "length arr = 16" "\<And>a. a < 16 \<Longrightarrow> length (arr ! a) = 16"
    "\<And>a b. a < 16 \<Longrightarrow> b < 16 \<Longrightarrow> length (arr ! a ! b) = 16"
  shows "shape16 arr"
  using assms by (auto simp: shape16_def list_all_length)

lemma nth_reshape3:
  "a < 16 \<Longrightarrow> b < 16 \<Longrightarrow> c < 16 \<Longrightarrow> reshape3 xs ! a ! b ! c = xs ! (a * 256 + b * 16 + c)"
  by (simp add: reshape3_def)

lemma nth_swapaxes12:
  "a < 16 \<Longrightarrow> b < 16 \<Longrightarrow> c < 16 \<Longrightarrow> swapaxes12 arr ! a ! b ! c = arr ! a ! c ! b"
  by (simp add: swapaxes12_def)

lemma shape16_reshape3 [simp]: "shape16 (reshape3 xs)"
  by (rule shape16I) (simp_all add: reshape3_def)

lemma shape16_swapaxes12 [simp]: "shape16 (swapaxes12 arr)"
  by (rule shape16I) (simp_all add: swapaxes12_def)

lemma shape16_eqI:
  assumes "shape16 arr" "shape16 arr'"
    "\<And>a b c. a < 16 \<Longrightarrow> b < 16 \<Longrightarrow> c < 16 \<Longrightarrow> arr ! a ! b ! c = arr' ! a ! b ! c"
  shows "arr = arr'"
proof (rule nth_equalityI)
  show "length arr = length arr'" using assms(1,2) by (simp add: shape16_def)
  fix a assume "a < length arr"
  then have a: "a < 16" using assms(1) by (simp add: shape16_def)
  show "arr ! a = arr' ! a"
  proof (rule nth_equalityI)
    show "length (arr ! a) = length (arr' ! a)"
      using shape16_len2[OF assms(1) a] shape16_len2[OF assms(2) a] by simp
    fix b assume "b < length (arr ! a)"
    then have b: "b < 16" using shape16_len2[OF assms(1) a] by simp
    show "arr ! a ! b = arr' ! a ! b"
    proof (rule nth_equalityI)
      show "length (arr ! a ! b) = length (arr' ! a ! b)"
        using shape16_len3[OF assms(1) a b] shape16_len3[OF assms(2) a b] by simp
      fix c assume "c < length (arr ! a ! b)"
      then have "c < 16" using shape16_len3[OF assms(1) a b] by simp
      then show "arr ! a ! b ! c = arr' ! a ! b ! c" using assms(3) a b by simp
    qed
  qed
qed

lemma length_concat_uniform:
  "(\<And>xs. xs \<in> set xss \<Longrightarrow> length xs = n) \<Longrightarrow> length (concat xss) = length xss * n"
  by (induction xss) simp_all

lemma nth_concat_uniform:
  "(\<And>xs. xs \<in> set xss \<Longrightarrow> length xs = n) \<Longrightarrow> i < length xss \<Longrightarrow> j < n \<Longrightarrow>
     concat xss ! (i * n + j) = xss ! i ! j"
proof (induction xss arbitrary: i)
  case Nil
  then show ?case by simp
next
  case (Cons xs xss)
  show ?case
  proof (cases i)
    case 0
    then show ?thesis using Cons.prems by (simp add: nth_append)
  next
    case (Suc i')
    have "concat xss ! (i' * n + j) = xss ! i' ! j"
      using Cons.prems Suc by (intro Cons.IH) simp_all
    then show ?thesis using Cons.prems(1)[of xs] Suc by (simp add: nth_append)
  qed
qed

lemma length_flatten3: "shape16 arr \<Longrightarrow> length (flatten3 arr) = 4096"
proof -
  assume s: "shape16 arr"
  have 1: "length (concat p) = 256" if "p \<in> set arr" for p
  proof -
    have "length p = 16" "\<And>r. r \<in> set p \<Longrightarrow> length r = 16"
      using s that by (auto simp: shape16_def list_all_iff)
    then show ?thesis using length_concat_uniform[of p 16] by simp
  qed
  have "length (concat (map concat arr)) = length (map concat arr) * 256"
    by (rule length_concat_uniform) (auto simp: 1)
  then show ?thesis using s by (simp add: flatten3_def shape16_def)
qed

lemma transpose16:
  assumes "length p = 16" "\<And>i. i < 16 \<Longrightarrow> length (p ! i) = 16"
  shows "transpose p = map (\<lambda>b. map (\<lambda>c. p ! c ! b) [0..<16]) [0..<16]"
proof -
  have ne: "p = [] \<Longrightarrow> (16::nat) = 0" using assms(1) by auto
  have "transpose p = map (\<lambda>i. map (\<lambda>j. p ! j ! i) [0..<length p]) [0..<16]"
    by (rule transpose_rectangle[OF ne]) (simp_all add: assms)
  then show ?thesis by (simp only: assms(1))
qed

lemma is_array16:
  assumes "shape16 arr"
  shows "is_array arr"
proof (cases arr)
  case Nil
  then show ?thesis by (simp add: is_array_def)
next
  case (Cons p ps)
  have lp: "length p = 16" using assms Cons by (simp add: shape16_def)
  then obtain r rs where p: "p = r # rs" by (cases p) simp_all
  have lr: "length r = 16" using assms Cons p by (simp add: shape16_def)
  have "list_all (\<lambda>q. length q = 16 \<and> list_all (\<lambda>s. length s = 16) q) arr"
    using assms by (simp add: shape16_def)
  then show ?thesis unfolding is_array_def Cons list.case p lp[unfolded p] lr
    using Cons p by simp
qed

lemma map_nth16: "length xs = 16 \<Longrightarrow> map f xs = map (\<lambda>a. f (xs ! a)) [0..<16]"
proof -
  assume l: "length xs = 16"
  have "map f xs = map f (map (\<lambda>a. xs ! a) [0..<length xs])" by (simp only: map_nth)
  then show ?thesis by (simp add: l)
qed

lemma swapaxes12_transpose:
  assumes "shape16 arr"
  shows "map transpose arr = swapaxes12 arr"
proof -
  have l: "length arr = 16" by (rule shape16_len1[OF assms])
  have "map transpose arr = map (\<lambda>a. transpose (arr ! a)) [0..<16]"
    by (rule map_nth16[OF l])
  also have "\<dots> = map (\<lambda>a. map (\<lambda>b. map (\<lambda>c. arr ! a ! c ! b) [0..<16]) [0..<16]) [0..<16]"
  proof (rule map_cong[OF refl])
    fix a :: nat assume "a \<in> set [0..<16]"
    then have a: "a < 16" by simp
    show "transpose (arr ! a) = map (\<lambda>b. map (\<lambda>c. arr ! a ! c ! b) [0..<16]) [0..<16]"
      by (rule transpose16) (simp_all add: shape16_len2[OF assms a] shape16_len3[OF assms a])
  qed
  finally show ?thesis by (simp only: swapaxes12_def)
qed

lemma swapaxes12_reshape4096_16:
  assumes "shape16 arr"
  shows "swapaxes12_reshape4096 arr = Inr (flatten3 (swapaxes12 arr))"
  using is_array16[OF assms] length_flatten3[OF assms]
  by (simp add: swapaxes12_reshape4096_def swapaxes12_transpose[OF assms])

lemma nth_flatten3:
  assumes "shape16 arr" "a < 16" "b < 16" "c < 16"
  shows "flatten3 arr ! (a * 256 + b * 16 + c) = arr ! a ! b ! c"
proof -
  have len: "length (concat p) = 256" if "p \<in> set arr" for p
  proof -
    have "length p = 16" "\<And>r. r \<in> set p \<Longrightarrow> length r = 16"
      using assms(1) that by (auto simp: shape16_def list_all_iff)
    then show ?thesis using length_concat_uniform[of p 16] by simp
  qed
  have la: "length arr = 16" using assms(1) by (simp add: shape16_def)
  have "concat (map concat arr) ! (a * 256 + (b * 16 + c)) = map concat arr ! a ! (b * 16 + c)"
    using assms la by (intro nth_concat_uniform) (auto simp: len)
  also have "\<dots> = concat (arr ! a) ! (b * 16 + c)" using assms la by simp
  also have "\<dots> = arr ! a ! b ! c"
  proof (rule nth_concat_uniform)
    fix r assume "r \<in> set (arr ! a)"
    moreover have "arr ! a \<in> set arr" using la assms(2) by simp
    ultimately show "length r = 16" using assms(1) by (auto simp: shape16_def list_all_iff)
  next
    show "b < length (arr ! a)" using shape16_len2[OF assms(1,2)] assms(3) by simp
  qed (rule assms(4))
  finally show ?thesis by (simp add: flatten3_def add.assoc)
qed

lemma flat_index_split:
  "k < 4096 \<Longrightarrow> \<exists>a b c. a < 16 \<and> b < 16 \<and> c < 16 \<and> k = a * 256 + b * 16 + (c::nat)"
proof -
  assume k: "k < 4096"
  have 1: "k = (k div 256) * 256 + k mod 256" by simp
  have 2: "k mod 256 = (k mod 256 div 16) * 16 + k mod 256 mod 16" by simp
  have 3: "k mod 256 div 16 < 16" by (simp add: less_mult_imp_div_less)
  have "k div 256 < 16" using k by (simp add: less_mult_imp_div_less)
  moreover have "k mod 256 mod 16 < 16" by simp
  moreover have "k = (k div 256) * 256 + (k mod 256 div 16) * 16 + k mod 256 mod 16"
    using 1 2 by linarith
  ultimately show ?thesis using 3 by blast
qed

lemma reshape3_flatten3: "shape16 arr \<Longrightarrow> reshape3 (flatten3 arr) = arr"
  by (rule shape16_eqI) (simp_all add: nth_reshape3 nth_flatten3)

lemma swapaxes12_swapaxes12: "shape16 arr \<Longrightarrow> swapaxes12 (swapaxes12 arr) = arr"
  by (rule shape16_eqI) (simp_all add: nth_swapaxes12)

lemma shape16_map3: "shape16 arr \<Longrightarrow> shape16 (map (map (map f)) arr)"
  by (auto simp: shape16_def list_all_iff)

lemma nth_map3:
  "shape16 arr \<Longrightarrow> a < 16 \<Longrightarrow> b < 16 \<Longrightarrow> c < 16 \<Longrightarrow>
     map (map (map f)) arr ! a ! b ! c = f (arr ! a ! b ! c)"
  using shape16_len1[of arr] shape16_len2[of arr a] shape16_len3[of arr a b] by simp

lemma reshape3_map_flatten3:
  assumes "shape16 arr"
  shows "swapaxes12 (reshape3 (map f (flatten3 (swapaxes12 arr)))) = map (map (map f)) arr"
proof (rule shape16_eqI)
  fix a b c :: nat assume abc: "a < 16" "b < 16" "c < 16"
  have "a * 256 + c * 16 + b < 4096" using abc by simp
  then have "map f (flatten3 (swapaxes12 arr)) ! (a * 256 + c * 16 + b)
             = f (flatten3 (swapaxes12 arr) ! (a * 256 + c * 16 + b))"
    by (simp add: length_flatten3)
  then show "swapaxes12 (reshape3 (map f (flatten3 (swapaxes12 arr)))) ! a ! b ! c
             = map (map (map f)) arr ! a ! b ! c"
    using abc assms by (simp add: nth_swapaxes12 nth_reshape3 nth_flatten3 nth_map3)
qed (simp_all add: shape16_map3 assms)

subsection \<open>The number of bits of an index and the number of words\<close>

declare ceil_log2.simps [simp del]

lemma ceil_log2_upper: "p \<le> 2 ^ ceil_log2 p"
proof (induction p rule: ceil_log2.induct)
  case (1 p)
  show ?case
  proof (cases "p \<le> 1")
    case True
    then show ?thesis by (subst ceil_log2.simps) simp
  next
    case False
    then have "(p + 1) div 2 \<le> 2 ^ ceil_log2 ((p + 1) div 2)" using 1 by simp
    then have "p \<le> 2 * 2 ^ ceil_log2 ((p + 1) div 2)" by linarith
    then show ?thesis using False by (subst ceil_log2.simps) simp
  qed
qed

lemma ceil_log2_lower: "1 < p \<Longrightarrow> 2 ^ (ceil_log2 p - 1) < p"
proof (induction p rule: ceil_log2.induct)
  case (1 p)
  let ?q = "(p + 1) div 2"
  have c: "ceil_log2 p = Suc (ceil_log2 ?q)"
    using "1.prems" by (subst ceil_log2.simps) simp
  show ?case
  proof (cases "1 < ?q")
    case False
    then have "?q \<le> 1" by simp
    then have "ceil_log2 ?q = 0" by (subst ceil_log2.simps) simp
    then show ?thesis using c "1.prems" by simp
  next
    case True
    then have ih: "2 ^ (ceil_log2 ?q - 1) < ?q" using 1 by simp
    have pos: "0 < ceil_log2 ?q"
      using True by (subst ceil_log2.simps) simp
    then have "(2::nat) ^ ceil_log2 ?q = 2 * 2 ^ (ceil_log2 ?q - 1)"
      by (cases "ceil_log2 ?q") simp_all
    then have "2 ^ ceil_log2 ?q < p" using ih by linarith
    then show ?thesis using c by simp
  qed
qed

lemma ceil_log2_1: "ceil_log2 1 = 0" "ceil_log2 (Suc 0) = 0"
  by (subst ceil_log2.simps, simp)+

lemma ceil_log2_pos: "1 < p \<Longrightarrow> 0 < ceil_log2 p"
  by (subst ceil_log2.simps) simp

lemma ceil_log2_real: 
  assumes "1 \<le> p"
  shows "int (ceil_log2 p) = \<lceil>log 2 (real p)\<rceil>"
proof (cases "p = 1")
  case True
  then show ?thesis by (simp add: ceil_log2_1)
next
  case False
  then have p: "1 < p" using assms by simp
  let ?c = "ceil_log2 p"
  have cpos: "0 < ?c" using ceil_log2_pos[OF p] .
  have up: "real p \<le> 2 ^ ?c" using ceil_log2_upper[of p]
    by (metis of_nat_le_iff of_nat_numeral of_nat_power)
  have lo: "2 ^ (?c - 1) < real p" using ceil_log2_lower[OF p]
    by (metis of_nat_less_iff of_nat_numeral of_nat_power)
  have 1: "log 2 (real p) \<le> real ?c"
    using up p by (simp add: log_le_iff powr_realpow)
  have 2: "real (?c - 1) < log 2 (real p)"
    using lo p by (simp add: less_log_iff powr_realpow)
  have "\<lceil>log 2 (real p)\<rceil> = int ?c"
    by (rule ceiling_unique) (use 1 2 cpos in \<open>simp_all add: of_nat_diff\<close>)
  then show ?thesis by simp
qed

lemma bitsPerBlock_bounds:
  assumes "1 \<le> p" "p \<le> 2 ^ 32"
  shows "1 \<le> bitsPerBlock_of p" "bitsPerBlock_of p \<le> 32" "p \<le> 2 ^ bitsPerBlock_of p"
proof -
  show "1 \<le> bitsPerBlock_of p" by (simp add: bitsPerBlock_of_def)
  show "p \<le> 2 ^ bitsPerBlock_of p"
  proof -
    have "p \<le> 2 ^ ceil_log2 p" by (rule ceil_log2_upper)
    also have "\<dots> \<le> 2 ^ bitsPerBlock_of p" by (simp add: bitsPerBlock_of_def)
    finally show ?thesis .
  qed
  show "bitsPerBlock_of p \<le> 32"
  proof (cases "p = 1")
    case True
    then show ?thesis by (simp add: bitsPerBlock_of_def ceil_log2_1)
  next
    case False
    then have p: "1 < p" using assms by simp
    have "(2::nat) ^ (ceil_log2 p - 1) < 2 ^ 32" using ceil_log2_lower[OF p] assms(2) by linarith
    then have "ceil_log2 p - 1 < 32" by (simp only: power_strict_increasing_iff)
    then show ?thesis by (simp add: bitsPerBlock_of_def)
  qed
qed

lemma numWords_eq:
  assumes "0 < b"
  shows "nat (- ((- 4096) div int b)) = (if 4096 mod b = 0 then 4096 div b else 4096 div b + 1)"
proof -
  have "(- 4096) div int b
        = (if 4096 mod int b = 0 then - (4096 div int b) else - (4096 div int b) - 1)"
    using assms by (subst zdiv_zminus1_eq_if) simp_all
  moreover have "4096 mod int b = int (4096 mod b)" "4096 div int b = int (4096 div b)"
    by (simp_all add: zmod_int zdiv_int)
  ultimately show ?thesis by (auto simp: nat_add_distrib)
qed

lemma numWords_cover:
  assumes "0 < b"
  shows "4096 \<le> nat (- ((- 4096) div int b)) * b"
proof -
  have e: "b * (4096 div b) + 4096 mod b = 4096" by (rule mult_div_mod_eq)
  have m: "4096 mod b < b" using assms by simp
  show ?thesis
  proof (cases "4096 mod b = 0")
    case True
    then show ?thesis using e unfolding numWords_eq[OF assms] by (simp add: mult.commute)
  next
    case False
    have "4096 < b * (4096 div b) + b" using e m by linarith
    then show ?thesis using False unfolding numWords_eq[OF assms] by (simp add: mult.commute)
  qed
qed

subsection \<open>Packing a word\<close>

lemma packed_word_slot:
  "packed_word bits bpw ids i = (\<Sum>j<bpw. slot bpw ids i j * (2 ^ bits) ^ j)"
  by (simp add: packed_word_def slot_def power_mult)

lemma or_push_bit:
  fixes x w :: int
  assumes "0 \<le> x" "x < 2 ^ b"
  shows "push_bit b w OR x = w * 2 ^ b + x"
proof -
  have "take_bit b x = x" using assms by (simp add: take_bit_int_eq_self)
  then have "x OR push_bit b w = x + push_bit b w"
    using concat_bit_eq[of b x w] by (simp add: concat_bit_def)
  then show ?thesis by (simp add: push_bit_eq_mult or.commute)
qed

lemma slot_bounds:
  assumes "\<And>k. k < 4096 \<Longrightarrow> uint (ids ! k) < 2 ^ bits"
  shows "0 \<le> slot bpw ids i j" "slot bpw ids i j < 2 ^ bits"
  using assms by (simp_all add: slot_def)

lemma pack_word_rev:
  assumes "length ids = 4096" "\<And>k. k < 4096 \<Longrightarrow> uint (ids ! k) < 2 ^ bits"
  shows "pack_word bits bpw ids i (rev [0..<n]) w
         = Inr (w * (2 ^ bits) ^ (min n (4096 - i * bpw))
                + (\<Sum>j<n. slot bpw ids i j * (2 ^ bits) ^ j))"
proof (induction n arbitrary: w)
  case 0
  show ?case by simp
next
  case (Suc n)
  show ?case
  proof (cases "i * bpw + n < 4096")
    case True
    then have m: "min (Suc n) (4096 - i * bpw) = Suc n" "min n (4096 - i * bpw) = n" by simp_all
    have s: "slot bpw ids i n = uint (ids ! (i * bpw + n))" using True by (simp add: slot_def)
    have o: "push_bit bits w OR uint (ids ! (i * bpw + n)) = w * 2 ^ bits + slot bpw ids i n"
      using or_push_bit[of "uint (ids ! (i * bpw + n))" bits w] assms(2)[OF True] s by simp
    have "pack_word bits bpw ids i (rev [0..<Suc n]) w
          = pack_word bits bpw ids i (rev [0..<n]) (w * 2 ^ bits + slot bpw ids i n)"
      using True assms(1) by (simp add: o)
    also have "\<dots> = Inr ((w * 2 ^ bits + slot bpw ids i n) * (2 ^ bits) ^ n
                + (\<Sum>j<n. slot bpw ids i j * (2 ^ bits) ^ j))"
      by (simp add: Suc.IH m)
    finally have r: "pack_word bits bpw ids i (rev [0..<Suc n]) w
          = Inr ((w * 2 ^ bits + slot bpw ids i n) * (2 ^ bits) ^ n
                + (\<Sum>j<n. slot bpw ids i j * (2 ^ bits) ^ j))" .
    have e: "(w * 2 ^ bits + slot bpw ids i n) * (2 ^ bits) ^ n
                + (\<Sum>j<n. slot bpw ids i j * (2 ^ bits) ^ j)
             = w * (2 ^ bits) ^ Suc n + (\<Sum>j<Suc n. slot bpw ids i j * (2 ^ bits) ^ j)"
      by (simp add: algebra_simps)
    show ?thesis unfolding m r e ..
  next
    case False
    then have m: "min (Suc n) (4096 - i * bpw) = min n (4096 - i * bpw)" by simp
    have s: "slot bpw ids i n = 0" using False by (simp add: slot_def)
    show ?thesis using False by (simp add: Suc.IH m s)
  qed
qed

lemma pack_word_packed:
  assumes "length ids = 4096" "\<And>k. k < 4096 \<Longrightarrow> uint (ids ! k) < 2 ^ bits"
  shows "pack_word bits bpw ids i (rev [0..<bpw]) 0 = Inr (packed_word bits bpw ids i)"
  using pack_word_rev[OF assms, of bpw i bpw 0] by (simp add: packed_word_slot)

lemma digits_bounds:
  fixes c :: "nat \<Rightarrow> int"
  assumes "\<And>j. j < n \<Longrightarrow> 0 \<le> c j \<and> c j < B" 
  shows "0 \<le> (\<Sum>j<n. c j * B ^ j) \<and> (\<Sum>j<n. c j * B ^ j) < B ^ n"
  using assms
proof (induction n)
  case 0
  show ?case by simp
next
  case (Suc n)
  have ih: "0 \<le> (\<Sum>j<n. c j * B ^ j)" "(\<Sum>j<n. c j * B ^ j) < B ^ n" using Suc by simp_all
  have c: "0 \<le> c n" "c n \<le> B - 1" using Suc.prems[of n] by simp_all
  have b: "0 \<le> B ^ n" using ih by linarith
  have "c n * B ^ n \<le> (B - 1) * B ^ n" using c b by (intro mult_right_mono) simp_all
  moreover have "0 \<le> c n * B ^ n" using c b by simp
  ultimately show ?case using ih by (simp add: algebra_simps)
qed

lemma packed_word_bounds:
  assumes "\<And>k. k < 4096 \<Longrightarrow> uint (ids ! k) < 2 ^ bits" "bits * bpw \<le> 32"
  shows "0 \<le> packed_word bits bpw ids i" "packed_word bits bpw ids i < 2 ^ 32"
proof -
  have b: "0 \<le> packed_word bits bpw ids i \<and> packed_word bits bpw ids i < (2 ^ bits) ^ bpw"
    unfolding packed_word_slot
    by (rule digits_bounds) (simp add: slot_bounds[OF assms(1)])
  then show "0 \<le> packed_word bits bpw ids i" by simp
  have "(2::int) ^ (bits * bpw) \<le> 2 ^ 32" using assms(2) by (intro power_increasing) simp_all
  then show "packed_word bits bpw ids i < 2 ^ 32" using b by (simp add: power_mult)
qed

lemma pack_uint_4: "0 \<le> v \<Longrightarrow> v < 2 ^ 32 \<Longrightarrow> pack_uint 4 v = Inr (le_bytes 4 v)"
  by (simp add: pack_uint_def)

lemma saveBlocks_loop_packed:
  assumes "length ids = 4096" "\<And>k. k < 4096 \<Longrightarrow> uint (ids ! k) < 2 ^ bits" "bits * bpw \<le> 32"
  shows "saveBlocks_loop bits bpw ids is data0
         = Inr (data0 @ concat (map (\<lambda>i. le_bytes 4 (packed_word bits bpw ids i)) is))"
proof (induction "is" arbitrary: data0)
  case Nil
  show ?case by simp
next
  case (Cons i "is")
  show ?case
    using packed_word_bounds[OF assms(2,3), of i]
    by (simp add: pack_word_packed[OF assms(1,2)] pack_uint_4 Cons.IH)
qed

subsection \<open>Unpacking a word\<close>

lemma and_mask_int: "(w::int) AND (2 ^ b - 1) = w mod 2 ^ b"
proof -
  have "w AND mask b = take_bit b w" by (simp add: take_bit_eq_mask)
  then show ?thesis by (simp add: mask_eq_exp_minus_1 take_bit_eq_mod)
qed

lemma tail_split:
  fixes c :: "nat \<Rightarrow> int"
  assumes "j0 < n"
  shows "(\<Sum>j\<in>{j0..<n}. c j * B ^ (j - j0))
         = c j0 + B * (\<Sum>j\<in>{Suc j0..<n}. c j * B ^ (j - Suc j0))"
proof -
  have "(\<Sum>j\<in>{j0..<n}. c j * B ^ (j - j0))
        = c j0 * B ^ (j0 - j0) + (\<Sum>j\<in>{Suc j0..<n}. c j * B ^ (j - j0))"
    using assms by (simp add: sum.atLeast_Suc_lessThan)
  moreover have "(\<Sum>j\<in>{Suc j0..<n}. c j * B ^ (j - j0))
        = (\<Sum>j\<in>{Suc j0..<n}. B * (c j * B ^ (j - Suc j0)))"
  proof (rule sum.cong)
    fix j assume "j \<in> {Suc j0..<n}"
    then have "j - j0 = Suc (j - Suc j0)" by auto
    then show "c j * B ^ (j - j0) = B * (c j * B ^ (j - Suc j0))" by simp
  qed simp
  ultimately show ?thesis by (simp add: sum_distrib_left)
qed

lemma tail_bounds:
  fixes c :: "nat \<Rightarrow> int"
  assumes "\<And>j. j < n \<Longrightarrow> 0 \<le> c j \<and> c j < B"
  shows "0 \<le> (\<Sum>j\<in>{j0..<n}. c j * B ^ (j - j0))"
proof (rule sum_nonneg)
  fix j assume "j \<in> {j0..<n}"
  then have j: "j < n" by simp
  have "0 \<le> B" using assms[OF j] by linarith
  then show "0 \<le> c j * B ^ (j - j0)" using assms[OF j] by simp
qed

lemma unpack_word_tail:
  fixes c :: "nat \<Rightarrow> int"
  assumes "\<And>j. j < n \<Longrightarrow> 0 \<le> c j \<and> c j < 2 ^ bits"
  shows "length (unpack_word bits bpw i [j0..<n] (\<Sum>j\<in>{j0..<n}. c j * (2 ^ bits) ^ (j - j0)) bl)
           = length bl \<and>
         (\<forall>k. unpack_word bits bpw i [j0..<n] (\<Sum>j\<in>{j0..<n}. c j * (2 ^ bits) ^ (j - j0)) bl ! k
            = (if i * bpw + j0 \<le> k \<and> k < i * bpw + n \<and> k < 4096 \<and> k < length bl
               then word_of_int (c (k - i * bpw)) else bl ! k))"
proof (induction "n - j0" arbitrary: j0 bl)
  case 0
  then have "[j0..<n] = []" by simp
  then show ?case using 0 by auto
next
  case (Suc d)
  then have lt: "j0 < n" by simp
  let ?T = "\<lambda>j0. (\<Sum>j\<in>{j0..<n}. c j * (2 ^ bits) ^ (j - j0))"
  have sp: "?T j0 = c j0 + 2 ^ bits * ?T (Suc j0)" by (rule tail_split[OF lt])
  have cb: "0 \<le> c j0" "c j0 < 2 ^ bits" using assms[OF lt] by simp_all
  have md: "?T j0 mod 2 ^ bits = c j0" unfolding sp using cb by simp
  have dv: "?T j0 div 2 ^ bits = ?T (Suc j0)" unfolding sp using cb by simp
  let ?bl1 = "if i * bpw + j0 < 4096 then bl[i * bpw + j0 := word_of_int (c j0)] else bl"
  have step: "unpack_word bits bpw i [j0..<n] (?T j0) bl
              = unpack_word bits bpw i [Suc j0..<n] (?T (Suc j0)) ?bl1"
    using lt by (simp add: upt_conv_Cons and_mask_int md drop_bit_eq_div dv Let_def del: upt_Suc)
  have d: "d = n - Suc j0" using Suc.hyps(2) by simp
  note ih = Suc.hyps(1)[OF d, of ?bl1]
  have l1: "length ?bl1 = length bl" by simp
  show ?case
  proof (intro conjI allI)
    show "length (unpack_word bits bpw i [j0..<n] (?T j0) bl) = length bl"
      unfolding step using ih l1 by simp
  next
    fix k
    have "unpack_word bits bpw i [j0..<n] (?T j0) bl ! k
          = (if i * bpw + Suc j0 \<le> k \<and> k < i * bpw + n \<and> k < 4096 \<and> k < length ?bl1
             then word_of_int (c (k - i * bpw)) else ?bl1 ! k)"
      unfolding step using ih by blast
    also have "\<dots> = (if i * bpw + j0 \<le> k \<and> k < i * bpw + n \<and> k < 4096 \<and> k < length bl
               then word_of_int (c (k - i * bpw)) else bl ! k)"
    proof (cases "k = i * bpw + j0")
      case True
      then show ?thesis using lt by (auto simp: nth_list_update list_update_beyond)
    next
      case False
      then have "?bl1 ! k = bl ! k" by (simp add: nth_list_update)
      moreover have "(i * bpw + Suc j0 \<le> k) = (i * bpw + j0 \<le> k)" using False by auto
      ultimately show ?thesis by (simp only: l1)
    qed
    finally show "unpack_word bits bpw i [j0..<n] (?T j0) bl ! k
          = (if i * bpw + j0 \<le> k \<and> k < i * bpw + n \<and> k < 4096 \<and> k < length bl
             then word_of_int (c (k - i * bpw)) else bl ! k)" .
  qed
qed

lemma unpack_word_packed:
  assumes "\<And>k. k < 4096 \<Longrightarrow> uint (ids ! k) < 2 ^ bits" "length bl = 4096"
  shows "length (unpack_word bits bpw i [0..<bpw] (packed_word bits bpw ids i) bl) = 4096 \<and>
         (\<forall>k. unpack_word bits bpw i [0..<bpw] (packed_word bits bpw ids i) bl ! k
            = (if i * bpw \<le> k \<and> k < i * bpw + bpw \<and> k < 4096 then ids ! k else bl ! k))"
proof -
  have pw: "packed_word bits bpw ids i
            = (\<Sum>j\<in>{0..<bpw}. slot bpw ids i j * (2 ^ bits) ^ (j - 0))"
    by (simp add: packed_word_slot atLeast0LessThan)
  have sb: "\<And>j. j < bpw \<Longrightarrow> 0 \<le> slot bpw ids i j \<and> slot bpw ids i j < 2 ^ bits"
    using slot_bounds[OF assms(1)] by simp
  note u = unpack_word_tail[of bpw "slot bpw ids i" bits bpw i 0 bl, OF sb, folded pw]
  have sl: "word_of_int (slot bpw ids i (k - i * bpw)) = ids ! k"
    if "i * bpw \<le> k" "k < 4096" for k
    using that by (simp add: slot_def)
  show ?thesis
  proof (intro conjI allI)
    show "length (unpack_word bits bpw i [0..<bpw] (packed_word bits bpw ids i) bl) = 4096"
      using u assms(2) by simp
  next
    fix k
    show "unpack_word bits bpw i [0..<bpw] (packed_word bits bpw ids i) bl ! k
            = (if i * bpw \<le> k \<and> k < i * bpw + bpw \<and> k < 4096 then ids ! k else bl ! k)"
      using u assms(2) sl[of k] by auto
  qed
qed

lemma unpack_words_packed:
  assumes "\<And>k. k < 4096 \<Longrightarrow> uint (ids ! k) < 2 ^ bits" "length bl = 4096"
  shows "length (unpack_words bits bpw i0 (map (packed_word bits bpw ids) [i0..<nw]) bl) = 4096 \<and>
         (\<forall>k. unpack_words bits bpw i0 (map (packed_word bits bpw ids) [i0..<nw]) bl ! k
            = (if i0 * bpw \<le> k \<and> k < nw * bpw \<and> k < 4096 then ids ! k else bl ! k))"
  using assms(2)
proof (induction "nw - i0" arbitrary: i0 bl)
  case 0
  then have e: "[i0..<nw] = []" and le: "nw \<le> i0" by simp_all
  have le': "nw * bpw \<le> i0 * bpw" using le by simp
  have no: "\<not> (i0 * bpw \<le> k \<and> k < nw * bpw \<and> k < 4096)" for k using le' by linarith
  show ?case using 0(2) by (simp only: e no) simp
next
  case (Suc d)
  then have lt: "i0 < nw" by simp
  let ?bl1 = "unpack_word bits bpw i0 [0..<bpw] (packed_word bits bpw ids i0) bl"
  note u = unpack_word_packed[OF assms(1) Suc.prems, of bpw i0]
  have l1: "length ?bl1 = 4096" using u by simp
  have d: "d = nw - Suc i0" using Suc.hyps(2) by simp
  note ih = Suc.hyps(1)[OF d l1]
  have step: "unpack_words bits bpw i0 (map (packed_word bits bpw ids) [i0..<nw]) bl
              = unpack_words bits bpw (Suc i0) (map (packed_word bits bpw ids) [Suc i0..<nw]) ?bl1"
    using lt by (simp add: upt_conv_Cons del: upt_Suc)
  have le: "Suc i0 * bpw \<le> nw * bpw" using lt by (simp del: mult_Suc)
  show ?case
  proof (intro conjI allI)
    show "length (unpack_words bits bpw i0 (map (packed_word bits bpw ids) [i0..<nw]) bl) = 4096"
      unfolding step using ih by simp
  next
    fix k
    have "unpack_words bits bpw i0 (map (packed_word bits bpw ids) [i0..<nw]) bl ! k
          = (if Suc i0 * bpw \<le> k \<and> k < nw * bpw \<and> k < 4096 then ids ! k else ?bl1 ! k)"
      unfolding step using ih by blast
    also have "\<dots> = (if i0 * bpw \<le> k \<and> k < nw * bpw \<and> k < 4096 then ids ! k else bl ! k)"
      using u le by auto
    finally show "unpack_words bits bpw i0 (map (packed_word bits bpw ids) [i0..<nw]) bl ! k
          = (if i0 * bpw \<le> k \<and> k < nw * bpw \<and> k < 4096 then ids ! k else bl ! k)" .
  qed
qed

lemma unpack_words_all:
  assumes "\<And>k. k < 4096 \<Longrightarrow> uint (ids ! k) < 2 ^ bits" "length ids = 4096"
    "4096 \<le> nw * bpw"
  shows "unpack_words bits bpw 0 (map (packed_word bits bpw ids) [0..<nw]) (replicate 4096 0) = ids"
proof (rule nth_equalityI)
  note u = unpack_words_packed[OF assms(1), of "replicate 4096 0" bpw 0 nw]
  show "length (unpack_words bits bpw 0 (map (packed_word bits bpw ids) [0..<nw])
                 (replicate 4096 0)) = length ids"
    using u assms(2) by simp
  fix k assume "k < length (unpack_words bits bpw 0 (map (packed_word bits bpw ids) [0..<nw])
                 (replicate 4096 0))"
  then have "k < 4096" using u by simp
  then show "unpack_words bits bpw 0 (map (packed_word bits bpw ids) [0..<nw])
                 (replicate 4096 0) ! k = ids ! k"
    using u assms(3) by simp
qed

subsection \<open>The packed indices\<close>

lemma bpw_facts:
  assumes "1 \<le> bits" "bits \<le> (32::nat)"
  shows "0 < 32 div bits" "bits * (32 div bits) \<le> 32"
  using assms by (simp_all add: div_greater_zero_iff)

lemma ids_bound:
  assumes "\<And>k. k < 4096 \<Longrightarrow> unat (ids ! k) < p" "p \<le> 2 ^ bits" "k < 4096"
  shows "uint ((ids :: 32 word list) ! k) < 2 ^ bits"
proof -
  have "unat (ids ! k) < 2 ^ bits" using assms by (meson less_le_trans)
  then have "int (unat (ids ! k)) < int (2 ^ bits)" by (simp only: of_nat_less_iff)
  then show ?thesis by simp
qed

lemma saveBlocks_bytes:
  assumes "1 \<le> p" "p \<le> 2 ^ 32" "length ids = 4096" "\<And>k. k < 4096 \<Longrightarrow> unat (ids ! k) < p"
  shows "saveBlocks p ids = Inr (blocks_bytes p ids)"
proof -
  let ?bits = "bitsPerBlock_of p"
  let ?bpw = "32 div ?bits"
  note b = bitsPerBlock_bounds[OF assms(1,2)]
  note w = bpw_facts[OF b(1,2)]
  have ib: "\<And>k. k < 4096 \<Longrightarrow> uint (ids ! k) < 2 ^ ?bits"
    using ids_bound[OF assms(4) b(3)] by simp
  have g: "\<And>n::nat. n < 256 \<Longrightarrow> pack_uint 1 (int n) = Inr (le_bytes 1 (int n))"
    by (simp add: pack_uint_def)
  have "push_bit 1 ?bits < (256::nat)" using b(2) by (simp add: push_bit_eq_mult)
  then have hdr: "pack_uint 1 (int (push_bit 1 ?bits)) = Inr (le_bytes 1 (int (push_bit 1 ?bits)))"
    by (rule g)
  have nz: "p \<noteq> 0" "?bpw \<noteq> 0" using assms(1) w(1) by simp_all
  show ?thesis
    unfolding saveBlocks_def blocks_bytes_def Let_def
    by (simp only: nz if_False hdr sum.case saveBlocks_loop_packed[OF assms(3) ib w(2)])
qed

lemma le_uint_le_bytes_4: "0 \<le> v \<Longrightarrow> v < 2 ^ 32 \<Longrightarrow> le_uint (le_bytes 4 v) = v"
  by (simp add: le_uint_le_bytes)

lemma words_le_concat:
  assumes "\<And>i. i \<in> set is \<Longrightarrow> 0 \<le> w i \<and> w i < 2 ^ 32"
  shows "words_le (length is) (concat (map (\<lambda>i. le_bytes 4 (w i)) is)) = map w is"
  using assms
proof (induction "is")
  case Nil
  show ?case by simp
next
  case (Cons i "is")
  have "le_uint (le_bytes 4 (w i)) = w i" using Cons.prems[of i] by (simp add: le_uint_le_bytes_4)
  then show ?case using Cons by (simp del: le_bytes.simps)
qed

lemma length_concat_le_bytes:
  "length (concat (map (\<lambda>i. le_bytes 4 (w i)) is)) = 4 * length is"
  by (induction "is") simp_all

lemma loadBlocks_blocks_bytes:
  assumes "1 \<le> p" "p \<le> 2 ^ 32" "length ids = 4096" "\<And>k. k < 4096 \<Longrightarrow> unat (ids ! k) < p"
  shows "loadBlocks (blocks_bytes p ids @ rest) = Inr (ids, rest)"
proof -
  let ?bits = "bitsPerBlock_of p"
  let ?bpw = "32 div ?bits"
  let ?nw = "nat (- ((- 4096) div int ?bpw))"
  let ?words = "concat (map (\<lambda>i. le_bytes 4 (packed_word ?bits ?bpw ids i)) [0..<?nw])"
  note b = bitsPerBlock_bounds[OF assms(1,2)]
  note w = bpw_facts[OF b(1,2)]
  have ib: "\<And>k. k < 4096 \<Longrightarrow> uint (ids ! k) < 2 ^ ?bits"
    using ids_bound[OF assms(4) b(3)] by simp
  define hb :: byte where "hb = word_of_int (int (push_bit 1 ?bits))"
  have bb: "blocks_bytes p ids @ rest = hb # (?words @ rest)"
    unfolding blocks_bytes_def Let_def hb_def by (simp only: le_bytes_1 append_Cons append_Nil One_nat_def)
  have g: "\<And>n::nat. n < 256 \<Longrightarrow> unat (word_of_int (int n) :: byte) = n"
    by (simp add: unat_of_nat)
  have "push_bit 1 ?bits < (256::nat)" using b(2) by (simp add: push_bit_eq_mult)
  then have "unat hb = push_bit 1 ?bits" unfolding hb_def by (rule g)
  then have db: "drop_bit (Suc 0) (unat hb) = ?bits" by (simp add: drop_bit_eq_div push_bit_eq_mult)
  have lw: "length ?words = 4 * ?nw" by (simp add: length_concat_le_bytes)
  have wl: "words_le ?nw ?words = map (packed_word ?bits ?bpw ids) [0..<?nw]"
    using words_le_concat[of "[0..<?nw]" "packed_word ?bits ?bpw ids"]
      packed_word_bounds[OF ib w(2)] by simp
  have ui: "unpack_I ?nw (take (4 * ?nw) (?words @ rest))
            = Inr (map (packed_word ?bits ?bpw ids) [0..<?nw])"
    using lw wl by (simp add: unpack_I_def)
  have ua: "unpack_words ?bits ?bpw 0 (map (packed_word ?bits ?bpw ids) [0..<?nw])
              (replicate 4096 0) = ids"
    by (rule unpack_words_all[OF ib assms(3) numWords_cover[OF w(1)]])
  have dr: "drop (4 * ?nw) (?words @ rest) = rest" using lw by simp
  show ?thesis
    unfolding bb loadBlocks_def
    using b(1) w(1)
    by (simp add: db Let_def ui ua dr del: le_bytes.simps upt_Suc take_append drop_append)
qed

subsection \<open>Building the palette\<close>

lemma py_index_found:
  "x \<in> set xs \<Longrightarrow> \<exists>k. py_index xs x = Inr k \<and> k < length xs \<and> xs ! k = x"
  by (induction xs) auto

lemma py_index_append: "py_index xs x = Inr k \<Longrightarrow> py_index (xs @ ys) x = Inr k"
  by (induction xs arbitrary: k) (auto split: if_splits sum.splits)

lemma py_index_nth: "py_index xs x = Inr k \<Longrightarrow> k < length xs \<and> xs ! k = x"
  by (induction xs arbitrary: k) (auto split: if_splits sum.splits)

lemma py_index_distinct: "distinct xs \<Longrightarrow> k < length xs \<Longrightarrow> py_index xs (xs ! k) = Inr k"
proof (induction xs arbitrary: k)
  case Nil
  then show ?case by simp
next
  case (Cons y ys)
  show ?case
  proof (cases k)
    case 0
    then show ?thesis by simp
  next
    case (Suc k')
    then have "ys ! k' \<in> set ys" using Cons.prems by simp
    then have "y \<noteq> ys ! k'" using Cons.prems by auto
    then show ?thesis using Suc Cons by simp
  qed
qed

lemma palette_add_ext: "\<exists>ext. palette_add pal b = pal @ ext"
  by (simp add: palette_add_def)

lemma foldl_palette_add_ext: "\<exists>ext. foldl palette_add pal bs = pal @ ext"
proof (induction bs arbitrary: pal)
  case Nil
  show ?case by simp
next
  case (Cons b bs)
  obtain e1 where e1: "palette_add pal b = pal @ e1" using palette_add_ext by blast
  obtain e2 where "foldl palette_add (palette_add pal b) bs = palette_add pal b @ e2"
    using Cons by blast
  then show ?case using e1 by simp
qed

lemma set_foldl_palette_add:
  "set (foldl palette_add pal bs) = set pal \<union> palette_entry ` set bs"
  by (induction bs arbitrary: pal) (auto simp: palette_add_def)

lemma distinct_foldl_palette_add:
  "distinct pal \<Longrightarrow> distinct (foldl palette_add pal bs)"
  by (induction bs arbitrary: pal) (auto simp: palette_add_def)

lemma length_foldl_palette_add:
  "length (foldl palette_add pal bs) \<le> length pal + length bs"
proof (induction bs arbitrary: pal)
  case Nil
  show ?case by simp
next
  case (Cons b bs)
  have "length (palette_add pal b) \<le> Suc (length pal)" by (simp add: palette_add_def)
  then show ?case using Cons[of "palette_add pal b"] by simp
qed

lemma index_in_palette:
  assumes "b \<in> set bs"
  shows "index_in (foldl palette_add pal bs) (palette_entry b) < length (foldl palette_add pal bs)"
    "foldl palette_add pal bs ! index_in (foldl palette_add pal bs) (palette_entry b)
       = palette_entry b"
proof -
  have "palette_entry b \<in> set (foldl palette_add pal bs)"
    using assms by (simp add: set_foldl_palette_add)
  from py_index_found[OF this] obtain k where
    "py_index (foldl palette_add pal bs) (palette_entry b) = Inr k"
    "k < length (foldl palette_add pal bs)" "foldl palette_add pal bs ! k = palette_entry b"
    by blast
  then show "index_in (foldl palette_add pal bs) (palette_entry b) < length (foldl palette_add pal bs)"
    "foldl palette_add pal bs ! index_in (foldl palette_add pal bs) (palette_entry b)
       = palette_entry b"
    by (simp_all add: index_in_def)
qed

lemma savePalette_loop_result:
  "\<exists>ids'. savePalette_loop i bs pal ids = Inr (foldl palette_add pal bs, ids')
      \<and> length ids' = length ids
      \<and> (\<forall>k. ids' ! k =
           (if i \<le> k \<and> k < i + length bs \<and> k < length ids
            then of_nat (index_in (foldl palette_add pal bs) (palette_entry (bs ! (k - i))))
            else ids ! k))"
proof (induction bs arbitrary: i pal ids)
  case Nil
  show ?case by auto
next
  case (Cons b bs)
  let ?pal1 = "palette_add pal b"
  let ?pal' = "foldl palette_add ?pal1 bs"
  have mem: "palette_entry b \<in> set ?pal1" by (simp add: palette_add_def)
  from py_index_found[OF mem] obtain k0 where k0: "py_index ?pal1 (palette_entry b) = Inr k0"
    by blast
  obtain ext where ext: "?pal' = ?pal1 @ ext" using foldl_palette_add_ext by blast
  have k0': "index_in ?pal' (palette_entry b) = k0"
    using py_index_append[OF k0, of ext] ext by (simp add: index_in_def)
  let ?ids1 = "ids[i := of_nat k0]"
  from Cons[of "Suc i" ?pal1 ?ids1] obtain ids' where
    r: "savePalette_loop (Suc i) bs ?pal1 ?ids1 = Inr (?pal', ids')"
    and l: "length ids' = length ?ids1"
    and n: "\<And>k. ids' ! k =
           (if Suc i \<le> k \<and> k < Suc i + length bs \<and> k < length ?ids1
            then of_nat (index_in ?pal' (palette_entry (bs ! (k - Suc i))))
            else ?ids1 ! k)"
    by blast
  have step: "savePalette_loop i (b # bs) pal ids = Inr (foldl palette_add pal (b # bs), ids')"
    using k0 r by (simp add: Let_def palette_add_def)
  have nth: "ids' ! k =
           (if i \<le> k \<and> k < i + length (b # bs) \<and> k < length ids
            then of_nat (index_in (foldl palette_add pal (b # bs))
                     (palette_entry ((b # bs) ! (k - i))))
            else ids ! k)" for k
  proof (cases "k = i")
    case True
    then show ?thesis using n[of k] k0' by (simp add: nth_list_update list_update_beyond)
  next
    case False
    then show ?thesis using n[of k] by (auto simp: nth_list_update nth_Cons')
  qed
  show ?case using step l nth by auto
qed

subsection \<open>The palette in the buffer\<close>

lemma length_wire_blocks [simp]: "length (wire_blocks sc) = 4096"
  by (simp add: wire_blocks_def length_flatten3)

lemma nth_wire_blocks:
  "a < 16 \<Longrightarrow> b < 16 \<Longrightarrow> c < 16 \<Longrightarrow>
     wire_blocks sc ! (a * 256 + c * 16 + b) = blocks sc ! a ! b ! c"
  by (simp add: wire_blocks_def nth_flatten3 nth_swapaxes12)

lemma wf_volume_nth:
  assumes "wf_volume arr" "shape16 arr" "a < 16" "b < 16" "c < 16"
  shows "wf_block (arr ! a ! b ! c)"
  using assms shape16_len1[of arr] shape16_len2[of arr a] shape16_len3[of arr a b]
  by (simp add: wf_volume_def list_all_length)

lemma wf_wire_blocks:
  assumes "wf_volume (blocks sc)" "shape16 (blocks sc)" "k < 4096"
  shows "wf_block (wire_blocks sc ! k)"
proof -
  from flat_index_split[OF assms(3)] obtain a b c where
    abc: "a < 16" "b < 16" "c < 16" "k = a * 256 + b * 16 + c" by blast
  show ?thesis
    using nth_wire_blocks[OF abc(1) abc(3) abc(2), of sc] abc(4)
      wf_volume_nth[OF assms(1,2) abc(1) abc(3) abc(2)] by simp
qed

lemma unat_of_nat_small: "n < 2 ^ 32 \<Longrightarrow> unat (of_nat n :: 32 word) = n"
  by (simp add: unat_of_nat)

lemma savePalette_result:
  assumes "shape16 (blocks sc)"
  shows "\<exists>ids. savePalette sc = Inr (palette_of sc, ids) \<and> length ids = 4096
      \<and> (\<forall>k<4096. unat (ids ! k) < length (palette_of sc)
             \<and> palette_of sc ! unat (ids ! k) = palette_entry (wire_blocks sc ! k))"
proof -
  let ?flat = "wire_blocks sc"
  let ?pal = "palette_of sc"
  from savePalette_loop_result[of 0 ?flat "[]" "replicate 4096 0"] obtain ids where
    r: "savePalette_loop 0 ?flat [] (replicate 4096 0) = Inr (?pal, ids)"
    and l: "length ids = 4096"
    and n: "\<And>k. ids ! k =
           (if 0 \<le> k \<and> k < 0 + length ?flat \<and> k < length (replicate 4096 (0 :: 32 word))
            then of_nat (index_in ?pal (palette_entry (?flat ! (k - 0))))
            else replicate 4096 0 ! k)"
    unfolding palette_of_def by auto
  have lp: "length ?pal \<le> 4096"
    using length_foldl_palette_add[of "[]" ?flat] by (simp add: palette_of_def)
  have "unat (ids ! k) < length ?pal \<and> ?pal ! unat (ids ! k) = palette_entry (?flat ! k)"
    if k: "k < 4096" for k
  proof -
    have mem: "?flat ! k \<in> set ?flat" using k by simp
    note ix = index_in_palette[OF mem, of "[]", folded palette_of_def]
    have "ids ! k = of_nat (index_in ?pal (palette_entry (?flat ! k)))" using n[of k] k by simp
    moreover have "index_in ?pal (palette_entry (?flat ! k)) < 2 ^ 32" using ix(1) lp by simp
    ultimately have "unat (ids ! k) = index_in ?pal (palette_entry (?flat ! k))"
      by (simp add: unat_of_nat_small)
    then show ?thesis using ix by simp
  qed
  then show ?thesis using r l
    by (auto simp: savePalette_def wire_blocks_def swapaxes12_reshape4096_16[OF assms])
qed

lemma palette_of_facts:
  "distinct (palette_of sc)" "1 \<le> length (palette_of sc)" "length (palette_of sc) \<le> 4096"
  "set (palette_of sc) = palette_entry ` set (wire_blocks sc)"
proof -
  show "distinct (palette_of sc)" by (simp add: palette_of_def distinct_foldl_palette_add)
  show "length (palette_of sc) \<le> 4096"
    using length_foldl_palette_add[of "[]" "wire_blocks sc"] by (simp add: palette_of_def)
  show s: "set (palette_of sc) = palette_entry ` set (wire_blocks sc)"
    by (simp add: palette_of_def set_foldl_palette_add)
  have "wire_blocks sc \<noteq> []"
    by (metis length_wire_blocks list.size(3) zero_neq_numeral)
  then have "set (palette_of sc) \<noteq> {}" using s by simp
  then show "1 \<le> length (palette_of sc)" by (cases "palette_of sc") simp_all
qed

lemma py_str_simps: "py_str [] = PStr []" "py_str ''name'' = PStr [110, 97, 109, 101]"
  "py_str ''val'' = PStr [118, 97, 108]"
  by (simp_all add: py_str_def)

lemma wf_top_palette_entry: "wf_block b \<Longrightarrow> wf_top (palette_entry b)"
  by (cases "block_name b"; cases "dv b")
     (simp_all add: wf_block_def palette_entry_def wf_top_def py_str_simps wf_string_def ascii_def)

lemma wf_top_palette_of:
  assumes "wf_volume (blocks sc)" "shape16 (blocks sc)" "t \<in> set (palette_of sc)"
  shows "wf_top t"
proof -
  from assms(3) obtain b where b: "b \<in> set (wire_blocks sc)" "t = palette_entry b"
    using palette_of_facts(4) by auto
  then obtain k where "k < 4096" "b = wire_blocks sc ! k"
    by (metis in_set_conv_nth length_wire_blocks)
  then show ?thesis using wf_wire_blocks[OF assms(1,2)] b(2) wf_top_palette_entry by simp
qed

lemma encode_palette_ok:
  "(\<And>t. t \<in> set pal \<Longrightarrow> wf_top t) \<Longrightarrow>
     encode_palette pal d = Inr (d @ concat (map encode_bytes pal))"
  by (induction pal arbitrary: d) (simp_all add: encode_wf_top)

lemma palette_loop_roundtrip:
  assumes "\<And>t. t \<in> set pal \<Longrightarrow> wf_top t" "remaining r = concat (map encode_bytes pal) @ rest"
  shows "palette_loop (length pal) r acc
         = Some (Inr (acc @ pal, advance (length (concat (map encode_bytes pal))) r))"
  using assms
proof (induction pal arbitrary: r acc)
  case Nil
  show ?case by (simp add: advance_0)
next
  case (Cons t pal)
  have wt: "wf_top t" using Cons.prems(1) by simp
  have rem: "remaining r = encode_bytes t @ (concat (map encode_bytes pal) @ rest)"
    using Cons.prems(2) by simp
  note d = decode_roundtrip[OF wt rem]
  have rem': "remaining (advance (length (encode_bytes t)) r) = concat (map encode_bytes pal) @ rest"
    using rem by (simp add: remaining_advance)
  show ?case using d Cons.IH[OF _ rem', of "acc @ [t]"] Cons.prems(1)
    by (simp add: advance_advance)
qed

lemma palette_loop_short:
  assumes "\<And>t. t \<in> set pal \<Longrightarrow> wf_top t" "concat (map encode_bytes pal) = remaining r @ q"
    "q \<noteq> []"
  shows "palette_loop (length pal) r acc = Some (Inl StructError)"
  using assms
proof (induction pal arbitrary: r acc)
  case Nil
  then show ?case by simp
next
  case (Cons t pal)
  have wt: "wf_top t" using Cons.prems(1) by simp
  have eq: "encode_bytes t @ concat (map encode_bytes pal) = remaining r @ q"
    using Cons.prems(2) by simp
  from eq Cons.prems(3) show ?case
  proof (cases rule: prefix_split)
    case (short q')
    then show ?thesis using decode_short[OF wt short] by simp
  next
    case (long p')
    note d = decode_roundtrip[OF wt long(1)]
    have rem': "concat (map encode_bytes pal) = remaining (advance (length (encode_bytes t)) r) @ q"
      using long by (simp add: remaining_advance)
    show ?thesis
      using d Cons.IH[OF _ rem' Cons.prems(3), of "acc @ [t]"] Cons.prems(1) by simp
  qed
qed

lemma remaining_reader [simp]: "remaining (reader bs) = bs"
  by (simp add: remaining_def reader_def)

lemma loadPalette_roundtrip:
  assumes "\<And>t. t \<in> set pal \<Longrightarrow> wf_top t" "length pal < 2 ^ 32"
  shows "loadPalette (le_bytes 4 (int (length pal)) @ concat (map encode_bytes pal) @ rest)
         = Some (Inr pal)"
proof -
  have u: "unpack_I1 (le_bytes 4 (int (length pal))) = Inr (int (length pal))"
    using assms(2) by (simp add: unpack_I1_def le_uint_le_bytes_4)
  show ?thesis
    using palette_loop_roundtrip[where pal = pal and rest = rest and acc = "[]"
        and r = "reader (concat (map encode_bytes pal) @ rest)"] assms(1)
    by (simp add: loadPalette_def u del: le_bytes.simps)
qed

lemma loadPalette_short:
  assumes "\<And>t. t \<in> set pal \<Longrightarrow> wf_top t" "length pal < 2 ^ 32"
    "concat (map encode_bytes pal) = p @ q" "q \<noteq> []"
  shows "loadPalette (le_bytes 4 (int (length pal)) @ p) = Some (Inl StructError)"
proof -
  have u: "unpack_I1 (le_bytes 4 (int (length pal))) = Inr (int (length pal))"
    using assms(2) by (simp add: unpack_I1_def le_uint_le_bytes_4)
  show ?thesis
    using palette_loop_short[where pal = pal and q = q and acc = "[]" and r = "reader p"]
      assms(1,3,4)
    by (simp add: loadPalette_def u del: le_bytes.simps)
qed

lemma make_block_entry:
  assumes "unat block < length pal" "pal ! unat block = palette_entry b"
  shows "make_block pal block = Inr (strip_nbt b)"
proof -
  have "uint block = int (unat block)" by simp
  then have g: "py_getitem pal (uint block) = Inr (palette_entry b)"
    using assms by (simp add: py_getitem_def del: of_nat_unat)
  show ?thesis
    by (simp add: make_block_def g palette_entry_def TAG_getitem_def py_str_simps strip_nbt_def)
qed

lemma blocks_loop_map:
  "list_all2 (\<lambda>block b. make_block pal block = Inr (strip_nbt b)) ids flat \<Longrightarrow>
     blocks_loop pal ids = Inr (map strip_nbt flat)"
  by (induction rule: list_all2_induct) simp_all

subsection \<open>The buffer of a subchunk\<close>

lemma ids_lt_palette:
  assumes "\<forall>k<4096. unat (ids ! k) < length pal \<and> pal ! unat (ids ! k) = palette_entry (flat ! k)"
  shows "\<And>k. k < 4096 \<Longrightarrow> unat ((ids :: 32 word list) ! k) < length pal"
  using assms by simp

lemma save_data_layout:
  assumes "version sc = 8" "wf_volume (blocks sc)" "shape16 (blocks sc)"
  shows "\<exists>ids. savePalette sc = Inr (palette_of sc, ids) \<and> length ids = 4096
      \<and> (\<forall>k<4096. unat (ids ! k) < length (palette_of sc)
             \<and> palette_of sc ! unat (ids ! k) = palette_entry (wire_blocks sc ! k))
      \<and> save_data sc = Inr ([8, 1] @ blocks_bytes (length (palette_of sc)) ids
                              @ le_bytes 4 (int (length (palette_of sc)))
                              @ concat (map encode_bytes (palette_of sc)))"
proof -
  let ?pal = "palette_of sc"
  from savePalette_result[OF assms(3)] obtain ids where
    sp: "savePalette sc = Inr (?pal, ids)" and l: "length ids = 4096"
    and n: "\<forall>k<4096. unat (ids ! k) < length ?pal
             \<and> ?pal ! unat (ids ! k) = palette_entry (wire_blocks sc ! k)"
    by blast
  note pf = palette_of_facts[of sc]
  have p32: "length ?pal \<le> 2 ^ 32" using pf(3) by simp
  have sb: "saveBlocks (length ?pal) ids = Inr (blocks_bytes (length ?pal) ids)"
    using n by (intro saveBlocks_bytes[OF pf(2) p32 l]) simp
  have v: "pack_uint 1 (version sc) = Inr [8]" using assms(1) by (simp add: pack_uint_def)
  have pl: "pack_uint 4 (int (length ?pal)) = Inr (le_bytes 4 (int (length ?pal)))"
    using pf(3) by (intro pack_uint_4) simp_all
  have ep: "encode_palette ?pal d = Inr (d @ concat (map encode_bytes ?pal))" for d
    using wf_top_palette_of[OF assms(2,3)] by (intro encode_palette_ok) simp
  have "save_data sc = Inr ([8, 1] @ blocks_bytes (length ?pal) ids
                              @ le_bytes 4 (int (length ?pal))
                              @ concat (map encode_bytes ?pal))"
    unfolding save_data_def by (simp only: v sp sb pl ep sum.case prod.case) simp
  then show ?thesis using sp l n by blast
qed

lemma unat_8: "unat (8 :: byte) = 8" "unat (1 :: byte) = 1"
  by simp_all

lemma subchunk_roundtrip_aux:
  assumes "version sc = 8" "wf_volume (blocks sc)" "shape16 (blocks sc)"
  shows "\<exists>d. save_data sc = Inr d
      \<and> SubChunk_decode x z y d
          = Some (Inr \<lparr>sub_x = x, sub_z = z, sub_y = y, version = 8,
                       blocks = map (map (map strip_nbt)) (blocks sc)\<rparr>)"
proof -
  let ?pal = "palette_of sc"
  from save_data_layout[OF assms] obtain ids where
    l: "length ids = 4096"
    and n: "\<forall>k<4096. unat (ids ! k) < length ?pal
             \<and> ?pal ! unat (ids ! k) = palette_entry (wire_blocks sc ! k)"
    and sd: "save_data sc = Inr ([8, 1] @ blocks_bytes (length ?pal) ids
                              @ le_bytes 4 (int (length ?pal))
                              @ concat (map encode_bytes ?pal))"
    by blast
  note pf = palette_of_facts[of sc]
  have p32: "length ?pal \<le> 2 ^ 32" using pf(3) by simp
  let ?tail = "le_bytes 4 (int (length ?pal)) @ concat (map encode_bytes ?pal)"
  have lb: "loadBlocks (blocks_bytes (length ?pal) ids @ ?tail) = Inr (ids, ?tail)"
    using n by (intro loadBlocks_blocks_bytes[OF pf(2) p32 l]) simp
  have lp: "loadPalette ?tail = Some (Inr ?pal)"
    using loadPalette_roundtrip[of ?pal "[]"] wf_top_palette_of[OF assms(2,3)] pf(3) by simp
  have "list_all2 (\<lambda>block b. make_block ?pal block = Inr (strip_nbt b)) ids (wire_blocks sc)"
    using n l by (auto simp: list_all2_conv_all_nth intro: make_block_entry)
  then have bl: "blocks_loop ?pal ids = Inr (map strip_nbt (wire_blocks sc))"
    by (rule blocks_loop_map)
  have sw: "swapaxes12 (reshape3 (map strip_nbt (wire_blocks sc)))
            = map (map (map strip_nbt)) (blocks sc)"
    unfolding wire_blocks_def by (rule reshape3_map_flatten3[OF assms(3)])
  have "SubChunk_decode x z y ([8, 1] @ blocks_bytes (length ?pal) ids @ ?tail)
        = Some (Inr \<lparr>sub_x = x, sub_z = z, sub_y = y, version = 8,
                     blocks = map (map (map strip_nbt)) (blocks sc)\<rparr>)"
    unfolding SubChunk_decode_def
    by (simp only: append_Cons append_Nil list.case unat_8 if_True refl lb lp bl sw
        sum.case prod.case option.case)
  then show ?thesis using sd by simp
qed

lemma butlast_app: "ys \<noteq> [] \<Longrightarrow> butlast (xs @ ys) = xs @ butlast ys"
  by (simp add: butlast_append)

lemma subchunk_truncated_aux:
  assumes "version sc = 8" "wf_volume (blocks sc)" "shape16 (blocks sc)"
  shows "\<exists>d. save_data sc = Inr d \<and> d \<noteq> []
      \<and> SubChunk_decode x z y (butlast d) = Some (Inl StructError)"
proof -
  let ?pal = "palette_of sc"
  from save_data_layout[OF assms] obtain ids where
    l: "length ids = 4096"
    and n: "\<forall>k<4096. unat (ids ! k) < length ?pal
             \<and> ?pal ! unat (ids ! k) = palette_entry (wire_blocks sc ! k)"
    and sd: "save_data sc = Inr ([8, 1] @ blocks_bytes (length ?pal) ids
                              @ le_bytes 4 (int (length ?pal))
                              @ concat (map encode_bytes ?pal))"
    by blast
  note pf = palette_of_facts[of sc]
  have p32: "length ?pal \<le> 2 ^ 32" using pf(3) by simp
  let ?ents = "concat (map encode_bytes ?pal)"
  obtain t where t: "t \<in> set ?pal" using pf(2) by (cases ?pal) auto
  have "encode_bytes t \<noteq> []"
    using encode_bytes_nonempty wf_top_palette_of[OF assms(2,3) t] by simp
  then have ne: "?ents \<noteq> []" using t by auto
  let ?tail = "le_bytes 4 (int (length ?pal)) @ butlast ?ents"
  have bl: "butlast ([8, 1] @ blocks_bytes (length ?pal) ids
                       @ le_bytes 4 (int (length ?pal)) @ ?ents)
            = [8, 1] @ blocks_bytes (length ?pal) ids @ ?tail"
  proof -
    let ?len = "le_bytes 4 (int (length ?pal))"
    let ?bb = "blocks_bytes (length ?pal) ids"
    have 1: "butlast (?len @ ?ents) = ?len @ butlast ?ents" using ne by (rule butlast_app)
    have 2: "butlast (?bb @ (?len @ ?ents)) = ?bb @ butlast (?len @ ?ents)"
      by (rule butlast_app) (use ne in simp)
    have 3: "butlast ([8, 1] @ (?bb @ (?len @ ?ents))) = [8, 1] @ butlast (?bb @ (?len @ ?ents))"
      by (rule butlast_app) (use ne in simp)
    show ?thesis by (simp only: 1 2 3)
  qed
  have lb: "loadBlocks (blocks_bytes (length ?pal) ids @ ?tail) = Inr (ids, ?tail)"
    using n by (intro loadBlocks_blocks_bytes[OF pf(2) p32 l]) simp
  have eq: "?ents = butlast ?ents @ [last ?ents]" using ne by simp
  have lp: "loadPalette ?tail = Some (Inl StructError)"
    using wf_top_palette_of[OF assms(2,3)] pf(3)
    by (intro loadPalette_short[where q = "[last ?ents]"]) (simp_all add: eq[symmetric])
  have "SubChunk_decode x z y ([8, 1] @ blocks_bytes (length ?pal) ids @ ?tail)
        = Some (Inl StructError)"
    unfolding SubChunk_decode_def
    by (simp only: append_Cons append_Nil list.case unat_8 if_True refl lb lp
        sum.case prod.case option.case)
  then show ?thesis using sd bl by simp
qed

lemma length_unpack_word [simp]: "length (unpack_word bits bpw i js w bl) = length bl"
  by (induction js arbitrary: w bl) (simp_all add: Let_def)

lemma length_unpack_words [simp]: "length (unpack_words bits bpw i ws bl) = length bl"
  by (induction ws arbitrary: i bl) simp_all



lemma strip_nbt_id: "nbt b = None \<Longrightarrow> strip_nbt b = b"
  by (simp add: strip_nbt_def)

lemma air_facts:
  "wf_block \<lparr>block_name = py_str ''minecraft:air'', dv = PInt 0, nbt = n\<rparr>"
  by (simp add: wf_block_def py_str_def wf_string_def ascii_def in_range_def)

lemma shape16_replicate: "shape16 (replicate 16 (replicate 16 (replicate 16 b)))"
  by (simp add: shape16_def list_all_iff)

lemma wf_volume_replicate:
  "wf_block b \<Longrightarrow> wf_volume (replicate 16 (replicate 16 (replicate 16 b)))"
  by (simp add: wf_volume_def list_all_iff)

lemma map3_replicate:
  "map (map (map f)) (replicate 16 (replicate 16 (replicate 16 b)))
   = replicate 16 (replicate 16 (replicate 16 (f b)))"
  by simp

lemma saved_buffer:
  assumes "version sc = 8" "wf_volume (blocks sc)" "shape16 (blocks sc)"
  shows "\<exists>ids. length ids = 4096
      \<and> (\<forall>k<4096. unat (ids ! k) < length (palette_of sc)
             \<and> palette_of sc ! unat (ids ! k) = palette_entry (wire_blocks sc ! k))
      \<and> save_data sc = Inr ([8, 1] @ blocks_bytes (length (palette_of sc)) ids
                              @ le_bytes 4 (int (length (palette_of sc)))
                              @ concat (map encode_bytes (palette_of sc)))
      \<and> loadBlocks (blocks_bytes (length (palette_of sc)) ids
                      @ le_bytes 4 (int (length (palette_of sc)))
                      @ concat (map encode_bytes (palette_of sc)))
          = Inr (ids, le_bytes 4 (int (length (palette_of sc)))
                      @ concat (map encode_bytes (palette_of sc)))
      \<and> loadPalette (le_bytes 4 (int (length (palette_of sc)))
                       @ concat (map encode_bytes (palette_of sc)))
          = Some (Inr (palette_of sc))"
proof -
  let ?pal = "palette_of sc"
  from save_data_layout[OF assms] obtain ids where
    l: "length ids = 4096"
    and n: "\<forall>k<4096. unat (ids ! k) < length ?pal
             \<and> ?pal ! unat (ids ! k) = palette_entry (wire_blocks sc ! k)"
    and sd: "save_data sc = Inr ([8, 1] @ blocks_bytes (length ?pal) ids
                              @ le_bytes 4 (int (length ?pal))
                              @ concat (map encode_bytes ?pal))"
    by blast
  note pf = palette_of_facts[of sc]
  have p32: "length ?pal \<le> 2 ^ 32" using pf(3) by simp
  let ?tail = "le_bytes 4 (int (length ?pal)) @ concat (map encode_bytes ?pal)"
  have lb: "loadBlocks (blocks_bytes (length ?pal) ids @ ?tail) = Inr (ids, ?tail)"
    using n by (intro loadBlocks_blocks_bytes[OF pf(2) p32 l]) simp
  have lp: "loadPalette ?tail = Some (Inr ?pal)"
    using loadPalette_roundtrip[of ?pal "[]"] wf_top_palette_of[OF assms(2,3)] pf(3) by simp
  show ?thesis using l n sd lb lp by blast
qed





lemma saved_buffer_valid:
  assumes "version sc = 8" "wf_volume (blocks sc)" "shape16 (blocks sc)"
  shows "\<exists>d. save_data sc = Inr d \<and> palette_ends_buffer d
      \<and> SubChunk_decode x z y d
          = Some (Inr \<lparr>sub_x = x, sub_z = z, sub_y = y, version = 8,
                       blocks = map (map (map strip_nbt)) (blocks sc)\<rparr>)"
proof -
  let ?pal = "palette_of sc"
  let ?ents = "concat (map encode_bytes ?pal)"
  let ?tail = "le_bytes 4 (int (length ?pal)) @ ?ents"
  from saved_buffer[OF assms] obtain ids where
    sd: "save_data sc = Inr ([8, 1] @ blocks_bytes (length ?pal) ids @ ?tail)"
    and lb: "loadBlocks (blocks_bytes (length ?pal) ids @ ?tail) = Inr (ids, ?tail)"
    by blast
  from subchunk_roundtrip_aux[OF assms, of x z y] sd
  have dec: "SubChunk_decode x z y ([8, 1] @ blocks_bytes (length ?pal) ids @ ?tail)
          = Some (Inr \<lparr>sub_x = x, sub_z = z, sub_y = y, version = 8,
                       blocks = map (map (map strip_nbt)) (blocks sc)\<rparr>)"
    by auto
  note pf = palette_of_facts[of sc]
  have u: "unpack_I1 (le_bytes 4 (int (length ?pal))) = Inr (int (length ?pal))"
    using pf(3) by (simp add: unpack_I1_def le_uint_le_bytes_4)
  have pl: "palette_loop (length ?pal) (reader ?ents) []
            = Some (Inr ([] @ ?pal, advance (length ?ents) (reader ?ents)))"
    by (rule palette_loop_roundtrip[where rest = "[]"])
       (simp_all add: wf_top_palette_of[OF assms(2,3)])
  have "palette_ends_buffer ([8, 1] @ blocks_bytes (length ?pal) ids @ ?tail)"
    using lb u pl by (simp add: palette_ends_buffer_def reader_def del: le_bytes.simps)
  then show ?thesis using sd dec by blast
qed


subsection \<open>Saving and loading a subchunk\<close>

text \<open>
  Claim C2, as amended.  For every subchunk of version 8 whose blocks form a
  16 by 16 by 16 array of blocks with a name of at most 32767 ASCII characters
  and a data value in the signed 16-bit range, \<^verbatim>\<open>SubChunk.save\<close> builds a buffer,
  and \<^verbatim>\<open>SubChunk.__init__\<close> on that buffer yields the same subchunk with, at
  every coordinate, the same name and the same data value, and with the
  \<^verbatim>\<open>nbt\<close> of every block set to \<^verbatim>\<open>None\<close>: the buffer does not hold the attached
  tags.
\<close>

theorem subchunk_roundtrip:
  assumes "version sc = 8" "shape16 (blocks sc)" "wf_volume (blocks sc)"
  shows "save_then_decode sc
         = Some (Inr (sc\<lparr>blocks := map (map (map (\<lambda>b. b\<lparr>nbt := None\<rparr>))) (blocks sc)\<rparr>))"
proof -
  from subchunk_roundtrip_aux[OF assms(1,3,2), of "sub_x sc" "sub_z sc" "sub_y sc"]
  obtain d where d: "save_data sc = Inr d"
    "SubChunk_decode (sub_x sc) (sub_z sc) (sub_y sc) d
       = Some (Inr \<lparr>sub_x = sub_x sc, sub_z = sub_z sc, sub_y = sub_y sc, version = 8,
                    blocks = map (map (map strip_nbt)) (blocks sc)\<rparr>)"
    by blast
  have "strip_nbt = (\<lambda>b. b\<lparr>nbt := None\<rparr>)" by (rule ext) (simp add: strip_nbt_def)
  then show ?thesis using d assms(1) by (simp add: save_then_decode_def)
qed

theorem subchunk_roundtrip_witness:
  "version (SubChunk_empty 0 0 0) = 8 \<and> shape16 (blocks (SubChunk_empty 0 0 0))
   \<and> wf_volume (blocks (SubChunk_empty 0 0 0))
   \<and> save_then_decode (SubChunk_empty 0 0 0) = Some (Inr (SubChunk_empty 0 0 0))"
proof -
  have v: "version (SubChunk_empty 0 0 0) = 8" by (simp add: SubChunk_empty_def)
  have s: "shape16 (blocks (SubChunk_empty 0 0 0))"
    by (simp add: SubChunk_empty_def shape16_replicate)
  have w: "wf_volume (blocks (SubChunk_empty 0 0 0))"
    by (simp add: SubChunk_empty_def wf_volume_replicate air_facts)
  show ?thesis
    using v s w subchunk_roundtrip[OF v s w] by (simp add: SubChunk_empty_def)
qed

text \<open>
  The claim as stated fails for a block that carries a tag tree: the tree is
  not in the buffer, and the loaded block has none.
\<close>

theorem subchunk_nbt_counterexample:
  "save_then_decode
     \<lparr>sub_x = 0, sub_z = 0, sub_y = 0, version = 8,
      blocks = replicate 16 (replicate 16 (replicate 16
        \<lparr>block_name = py_str ''minecraft:air'', dv = PInt 0,
         nbt = Some (TAG TAG_Compound (PStr []) (PList []))\<rparr>))\<rparr>
   = Some (Inr
     \<lparr>sub_x = 0, sub_z = 0, sub_y = 0, version = 8,
      blocks = replicate 16 (replicate 16 (replicate 16
        \<lparr>block_name = py_str ''minecraft:air'', dv = PInt 0, nbt = None\<rparr>))\<rparr>) \<and>
   getBlock
     \<lparr>sub_x = 0, sub_z = 0, sub_y = 0, version = 8,
      blocks = replicate 16 (replicate 16 (replicate 16
        \<lparr>block_name = py_str ''minecraft:air'', dv = PInt 0,
         nbt = Some (TAG TAG_Compound (PStr []) (PList []))\<rparr>))\<rparr> 0 0 0
   = Inr \<lparr>block_name = py_str ''minecraft:air'', dv = PInt 0,
          nbt = Some (TAG TAG_Compound (PStr []) (PList []))\<rparr> \<and>
   getBlock
     \<lparr>sub_x = 0, sub_z = 0, sub_y = 0, version = 8,
      blocks = replicate 16 (replicate 16 (replicate 16
        \<lparr>block_name = py_str ''minecraft:air'', dv = PInt 0, nbt = None\<rparr>))\<rparr> 0 0 0
   = Inr \<lparr>block_name = py_str ''minecraft:air'', dv = PInt 0, nbt = None\<rparr>"
proof -
  let ?b = "\<lparr>block_name = py_str ''minecraft:air'', dv = PInt 0,
         nbt = Some (TAG TAG_Compound (PStr []) (PList []))\<rparr>"
  let ?v = "\<lparr>sub_x = 0, sub_z = 0, sub_y = 0, version = 8,
      blocks = replicate 16 (replicate 16 (replicate 16 ?b))\<rparr>"
  have "version ?v = 8" "wf_volume (blocks ?v)" "shape16 (blocks ?v)"
    by (simp_all add: shape16_replicate wf_volume_replicate air_facts)
  from subchunk_roundtrip_aux[OF this, of 0 0 0]
  have "save_then_decode ?v
        = Some (Inr \<lparr>sub_x = 0, sub_z = 0, sub_y = 0, version = 8,
                     blocks = map (map (map strip_nbt)) (blocks ?v)\<rparr>)"
    by (auto simp: save_then_decode_def)
  then show ?thesis by (simp add: strip_nbt_def getBlock_def py_getitem_def)
qed

subsection \<open>Bit packing\<close>

text \<open>
  Claim C5.  For a palette of \<open>p\<close> entries, \<open>1 \<le> p \<le> 2 ^ 32\<close>, and 4096
  indices below \<open>p\<close>: the number of bits is \<open>max \<lceil>log 2 p\<rceil> 1\<close>;
  \<^verbatim>\<open>_saveBlocks\<close> returns the byte \<^verbatim>\<open>bitsPerBlock << 1\<close> followed by the words, four
  bytes each and low byte first, word \<open>i\<close> holding \<open>32 div bitsPerBlock\<close> indices
  with the first one in its lowest bits and zeros in the slots past the last
  index; and \<^verbatim>\<open>_loadBlocks\<close> on these bytes, whatever follows them, returns the
  4096 indices and what follows.
\<close>

theorem bit_packing_roundtrip:
  assumes "1 \<le> p" "p \<le> 2 ^ 32" "length ids = 4096" "\<forall>k<4096. unat (ids ! k) < p"
  shows "int (bitsPerBlock_of p) = max \<lceil>log 2 (real p)\<rceil> 1
       \<and> (let bits = bitsPerBlock_of p; bpw = 32 div bits;
               nw = nat (- ((- 4096) div int bpw));
               bs = le_bytes 1 (int (push_bit 1 bits))
                    @ concat (map (\<lambda>i. le_bytes 4 (packed_word bits bpw ids i)) [0..<nw])
           in saveBlocks p ids = Inr bs \<and> loadBlocks (bs @ rest) = Inr (ids, rest))"
proof -
  have 1: "int (bitsPerBlock_of p) = max \<lceil>log 2 (real p)\<rceil> 1"
    using ceil_log2_real[OF assms(1)] by (simp add: bitsPerBlock_of_def)
  have sb: "saveBlocks p ids = Inr (blocks_bytes p ids)"
    using assms(4) by (intro saveBlocks_bytes[OF assms(1,2,3)]) simp
  have lb: "loadBlocks (blocks_bytes p ids @ rest) = Inr (ids, rest)"
    using assms(4) by (intro loadBlocks_blocks_bytes[OF assms(1,2,3)]) simp
  show ?thesis
    using 1 sb lb unfolding blocks_bytes_def Let_def by simp
qed

text \<open>A palette of one entry takes one bit for an index.\<close>

theorem bit_packing_roundtrip_witness:
  "bitsPerBlock_of 1 = 1
   \<and> (\<exists>bs. saveBlocks 1 (replicate 4096 0) = Inr bs
           \<and> loadBlocks (bs @ [7]) = Inr (replicate 4096 0, [7]))"
proof -
  have b: "bitsPerBlock_of (Suc 0) = Suc 0" by (simp add: bitsPerBlock_of_def ceil_log2_1)
  have h: "\<forall>k<4096. unat (replicate 4096 (0 :: 32 word) ! k) < 1" by simp
  from bit_packing_roundtrip[of 1 "replicate 4096 0" "[7]"] h
  show ?thesis by (simp add: Let_def b)
qed

subsection \<open>The order of the axes\<close>



subsection \<open>Truncated buffers\<close>

text \<open>
  Claim C9.  A buffer is a valid tag when \<^verbatim>\<open>decode\<close>, started at some position of
  it, returns a tag and has then read the buffer to its end; it is a valid
  subchunk when \<^verbatim>\<open>SubChunk.__init__\<close> returns a subchunk for it and the palette
  ends with the buffer.  On every such buffer with its last byte removed,
  \<^verbatim>\<open>decode\<close> from the same position, and \<^verbatim>\<open>SubChunk.__init__\<close>, raise
  \<^verbatim>\<open>struct.error\<close>.  An exception is the whole outcome: no tag and no subchunk is
  returned.
\<close>

theorem truncated_buffer_fails:
  "(decode r = Some (Inr (t, r')) \<and> idx r' = length (data r) \<longrightarrow>
      decode (r\<lparr>data := butlast (data r)\<rparr>) = Some (Inl StructError))
   \<and> (SubChunk_decode x z y d = Some (Inr sc) \<and> palette_ends_buffer d \<longrightarrow>
      SubChunk_decode x z y (butlast d) = Some (Inl StructError))"
proof (intro conjI impI)
  assume "decode r = Some (Inr (t, r')) \<and> idx r' = length (data r)"
  then show "decode (r\<lparr>data := butlast (data r)\<rparr>) = Some (Inl StructError)"
    using decode_cut_last[of r t r'] by simp
next
  assume "SubChunk_decode x z y d = Some (Inr sc) \<and> palette_ends_buffer d"
  then show "SubChunk_decode x z y (butlast d) = Some (Inl StructError)"
    using subchunk_cut_last[of x z y d sc] by simp
qed

text \<open>
  The string tag \<^verbatim>\<open>08 00 00 02 00 C3 A9\<close>, whose payload is one character of two
  bytes, and the buffer saved for the subchunk of air.
\<close>

theorem truncated_buffer_fails_witness:
  "decode (reader [8, 0, 0, 2, 0, 0xC3, 0xA9])
     = Some (Inr (TAG TAG_String (PStr []) (PStr [233]),
                  \<lparr>data = [8, 0, 0, 2, 0, 0xC3, 0xA9], idx = 7\<rparr>))
   \<and> decode (reader [8, 0, 0, 2, 0, 0xC3]) = Some (Inl StructError)
   \<and> (\<exists>d. save_data (SubChunk_empty 0 0 0) = Inr d
         \<and> SubChunk_decode 0 0 0 d = Some (Inr (SubChunk_empty 0 0 0))
         \<and> palette_ends_buffer d
         \<and> SubChunk_decode 0 0 0 (butlast d) = Some (Inl StructError))"
proof -
  let ?r = "reader [8, 0, 0, 2, 0, 0xC3, 0xA9]"
  let ?t = "TAG TAG_String (PStr []) (PStr [233])"
  let ?r' = "\<lparr>data = [8, 0, 0, 2, 0, 0xC3, 0xA9 :: byte], idx = 7\<rparr>"
  have d: "decode ?r = Some (Inr (?t, ?r'))"
    by (simp add: eval_simps)
  have e: "idx ?r' = length (data ?r)" by (simp add: reader_def)
  have v: "version (SubChunk_empty 0 0 0) = 8" "wf_volume (blocks (SubChunk_empty 0 0 0))"
    "shape16 (blocks (SubChunk_empty 0 0 0))"
    by (simp_all add: SubChunk_empty_def shape16_replicate wf_volume_replicate air_facts)
  from saved_buffer_valid[OF v, of 0 0 0] obtain b where
    s: "save_data (SubChunk_empty 0 0 0) = Inr b" and p: "palette_ends_buffer b"
    and c: "SubChunk_decode 0 0 0 b = Some (Inr (SubChunk_empty 0 0 0))"
    by (auto simp: SubChunk_empty_def strip_nbt_def)
  from truncated_buffer_fails[of ?r ?t ?r' 0 0 0 b "SubChunk_empty 0 0 0"] d e c p
  have "decode (?r\<lparr>data := butlast (data ?r)\<rparr>) = Some (Inl StructError)"
    and t2: "SubChunk_decode 0 0 0 (butlast b) = Some (Inl StructError)"
    by blast+
  then have "decode (reader [8, 0, 0, 2, 0, 0xC3]) = Some (Inl StructError)"
    by (simp add: reader_def)
  with d s c p t2 show ?thesis by blast
qed

end
